theory Spec2Isabelle
  imports Main
begin

section \<open>Shared data: Go interface values and errors\<close>

text \<open>
  The packages \<open>knife\<close> and \<open>apcu\<close> store values of Go's type \<open>interface{}\<close>.
  Such a value is either \<open>nil\<close> or a dynamic type together with a content. Three
  shapes of dynamic type are told apart by the type switch of \<open>apcu.load\<close>: the
  builtin \<open>string\<close>, \<open>reflect.Value\<close>, and every other type. A type other than these
  two is identified by its name and carries its \<open>reflect.Kind\<close>; a content other than
  a string is kept as an opaque text.
\<close>

datatype kind = KBool | KInt | KFloat | KString | KStruct | KPtr | KSlice | KMap | KInterface

datatype gotype = TString | TReflectValue | TOther string kind

fun kind_of :: "gotype \<Rightarrow> kind" where
  "kind_of TString = KString"
| "kind_of TReflectValue = KStruct"
| "kind_of (TOther n k) = k"

text \<open>
  \<open>IReflect t c\<close> is a valid \<open>reflect.Value\<close> that wraps a value of type \<open>t\<close> with
  content \<open>c\<close>; \<open>IReflectZero\<close> is the zero \<open>reflect.Value{}\<close>, which wraps nothing;
  \<open>IOther n k c\<close> is a value of the type \<open>TOther n k\<close>.
\<close>

datatype iface =
  INil | IString string | IReflect gotype string | IReflectZero | IOther string kind string

fun dyn_type :: "iface \<Rightarrow> gotype option" where
  "dyn_type INil = None"
| "dyn_type (IString s) = Some TString"
| "dyn_type (IReflect t c) = Some TReflectValue"
| "dyn_type IReflectZero = Some TReflectValue"
| "dyn_type (IOther n k c) = Some (TOther n k)"

text \<open>
  The errors the code returns. A panic of the Go runtime is no return value; it is
  kept as a branch of the model by the error \<open>Panic\<close> with the message of the panic.
\<close>

datatype error =
    KnifeUninitialized
  | DuplicateKey string
  | NilDereference
  | OutNotPtr
  | TypeNotMatch gotype
  | JSONError string
  | SessionIDError string
  | NotFound
  | Malformed
  | InvalidSession
  | Panic string

section \<open>Package knife: the store attached to a context\<close>

text \<open>
  A \<open>context.Context\<close> is a chain of bindings ending in \<open>context.Background()\<close>. The
  key \<open>ctxKey\<close> has an unexported type, so the only binding under it is the one
  \<open>knife.New\<close> makes, whose value is a pointer to a \<open>sync.Map\<close>: \<open>WithStore c a\<close> is
  \<open>context.WithValue(c, ctxKey, m)\<close> with \<open>m\<close> the map at address \<open>a\<close>. Bindings of
  other packages are \<open>WithValue c k v\<close>. The maps live in a heap, since every context
  derived from one that carries a store shares that store: \<open>maps s a\<close> is the content
  of the map at address \<open>a\<close> and \<open>nxt s\<close> the next address \<open>new(sync.Map)\<close> returns.
  A nil \<open>context.Context\<close> is not a value of \<open>ctx\<close>; where the code returns one it is
  \<open>None\<close> of \<open>ctx option\<close>.
\<close>

datatype ctx = Background | WithStore ctx nat | WithValue ctx string string

record kstate =
  maps :: "nat \<Rightarrow> (string \<rightharpoonup> iface)"
  nxt :: nat

text \<open>\<open>cache(ctx)\<close>: the value bound to \<open>ctxKey\<close>, asserted to be a \<open>*sync.Map\<close>.\<close>

fun cache :: "ctx \<Rightarrow> nat option" where
  "cache Background = None"
| "cache (WithStore c a) = Some a"
| "cache (WithValue c k v) = cache c"

text \<open>The addresses a context refers to; all of them were allocated before.\<close>

fun addrs :: "ctx \<Rightarrow> nat set" where
  "addrs Background = {}"
| "addrs (WithStore c a) = insert a (addrs c)"
| "addrs (WithValue c k v) = addrs c"

definition ctx_ok :: "kstate \<Rightarrow> ctx \<Rightarrow> bool" where
  "ctx_ok s c = (\<forall>a \<in> addrs c. a < nxt s)"

text \<open>\<open>New\<close> returns the context, whether a store was already attached, and the heap.\<close>

definition New :: "kstate \<Rightarrow> ctx \<Rightarrow> kstate \<times> ctx \<times> bool" where
  "New s c =
     (case cache c of
        Some a \<Rightarrow> (s, c, True)
      | None \<Rightarrow>
          (s\<lparr>maps := (maps s)(nxt s := Map.empty), nxt := Suc (nxt s)\<rparr>,
           WithStore c (nxt s), False))"

text \<open>\<open>Get\<close> returns \<open>m.Load(key)\<close>, which is \<open>(nil, false)\<close> for an absent key.\<close>

definition Get :: "kstate \<Rightarrow> ctx \<Rightarrow> string \<Rightarrow> iface \<times> bool" where
  "Get s c key =
     (case cache c of
        Some a \<Rightarrow> (case maps s a key of Some v \<Rightarrow> (v, True) | None \<Rightarrow> (INil, False))
      | None \<Rightarrow> (INil, False))"

text \<open>\<open>Set\<close> uses \<open>m.LoadOrStore\<close>: it stores only when the key is absent.\<close>

definition Set :: "kstate \<Rightarrow> ctx \<Rightarrow> string \<Rightarrow> iface \<Rightarrow> kstate \<times> error option" where
  "Set s c key val =
     (case cache c of
        None \<Rightarrow> (s, Some KnifeUninitialized)
      | Some a \<Rightarrow>
          (case maps s a key of
             Some old \<Rightarrow> (s, Some (DuplicateKey key))
           | None \<Rightarrow> (s\<lparr>maps := (maps s)(a := (maps s a)(key \<mapsto> val))\<rparr>, None)))"

definition Delete_knife :: "kstate \<Rightarrow> ctx \<Rightarrow> string \<Rightarrow> kstate" where
  "Delete_knife s c key =
     (case cache c of
        Some a \<Rightarrow> s\<lparr>maps := (maps s)(a := (maps s a)(key := None))\<rparr>
      | None \<Rightarrow> s)"

text \<open>
  The loop of \<open>Copy\<close> over the explicit keys: a key the source map \<open>m\<close> holds is set
  in \<open>dest\<close>, and the first error of \<open>Set\<close> ends the loop.
\<close>

fun copy_keys :: "kstate \<Rightarrow> nat \<Rightarrow> ctx \<Rightarrow> string list \<Rightarrow> kstate \<times> error option" where
  "copy_keys s m dest [] = (s, None)"
| "copy_keys s m dest (key # keys) =
     (case maps s m key of
        Some v \<Rightarrow>
          (case Set s dest key v of
             (s', Some e) \<Rightarrow> (s', Some e)
           | (s', None) \<Rightarrow> copy_keys s' m dest keys)
      | None \<Rightarrow> copy_keys s m dest keys)"

text \<open>
  \<open>Copy\<close> returns the heap, the context (\<open>None\<close> is the nil context) and the error
  (\<open>None\<close> is the nil error). Without keys, \<open>m.Range\<close> stores every entry of the
  source map into the map of \<open>dest\<close>. The map of \<open>dest\<close> always exists, as \<open>dest\<close>
  comes from \<open>New\<close>; the branch for a missing one is the nil dereference that \<open>c.Store\<close>
  would be.
\<close>

definition Copy :: "kstate \<Rightarrow> ctx \<Rightarrow> string list \<Rightarrow> kstate \<times> ctx option \<times> error option" where
  "Copy s src keys =
     (case cache src of
        None \<Rightarrow> (s, None, None)
      | Some m \<Rightarrow>
          (case New s Background of
             (s1, dest, cached) \<Rightarrow>
               if keys = [] then
                 (case cache dest of
                    Some c \<Rightarrow>
                      (s1\<lparr>maps := (maps s1)(c := maps s1 c ++ maps s1 m)\<rparr>, Some dest, None)
                  | None \<Rightarrow> (s1, None, Some NilDereference))
               else
                 (case copy_keys s1 m dest keys of
                    (s2, Some e) \<Rightarrow> (s2, None, Some e)
                  | (s2, None) \<Rightarrow> (s2, Some dest, None))))"

section \<open>Package apcu: the process-local cache\<close>

text \<open>
  The package keeps one \<open>sync.Map\<close> from keys to \<open>*cacheItem\<close>. Every key has an
  item of its own and nothing else holds the pointer, so the map is a partial function
  from keys to items and the assignment \<open>item.source = ...\<close> in \<open>load\<close> is an update of
  the entry. Times are nanoseconds counted from the zero \<open>time.Time\<close>, so \<open>IsZero\<close> is
  equality with 0 and \<open>After\<close> is \<open>>\<close>; durations are nanoseconds too. The reading of
  \<open>time.Now()\<close> is an argument of each operation.
\<close>

record cacheItem =
  source :: iface
  expireAt :: int

type_synonym entries = "string \<rightharpoonup> cacheItem"

text \<open>
  What \<open>load\<close> sees of its argument \<open>out\<close> through \<open>reflect\<close>: the nil interface, a
  value that is no pointer, a nil pointer to type \<open>t\<close>, or a pointer to a variable of
  type \<open>t\<close>.
\<close>

datatype out_arg = OutNil | OutNonPtr gotype | OutNilPtr gotype | OutPtr gotype

text \<open>
  The response \<open>Load\<close> hands to the recorder: the constant \<open>EmptyValue\<close>, or \<open>out\<close>
  with the content written through it.
\<close>

datatype response = EmptyValue | Loaded "string option"

text \<open>
  The collaborators that are not part of the package are parameters: the two mode
  flags \<open>replayer.ReplayMode()\<close> and \<open>recorder.RecordMode()\<close>, the function
  \<open>replayer.GetSessionID\<close> with its two results (the session id and the error, \<open>None\<close>
  for nil), and \<open>json.Unmarshal\<close> into a fresh variable of a given type, which returns
  an error or the decoded content. \<open>recorder.RecordAction\<close> is a log of the recorded
  requests and responses.
\<close>

record env =
  replay_mode :: bool
  record_mode :: bool
  get_session_id :: "ctx \<Rightarrow> string \<times> error option"
  unmarshal :: "string \<Rightarrow> gotype \<Rightarrow> error + string"

record astate =
  entries_of :: entries
  recorded :: "(string \<times> response) list"

definition getKey :: "env \<Rightarrow> ctx \<Rightarrow> string \<Rightarrow> string \<times> error option" where
  "getKey E c key =
     (if replay_mode E then
        (case get_session_id E c of
           (sessionID, Some err) \<Rightarrow> ([], Some err)
         | (sessionID, None) \<Rightarrow> (sessionID @ key, None))
      else (key, None))"

text \<open>
  The type switch of \<open>load\<close> on the source of an item, for \<open>out\<close> a pointer to type
  \<open>t\<close>. It returns the entries, \<open>ok\<close>, the error and the content written through
  \<open>out\<close>. A string that decodes is replaced in the item by the decoded
  \<open>reflect.Value\<close>. For a stored zero \<open>reflect.Value\<close> the call \<open>source.Type()\<close>
  panics. A nil source never reaches the switch: \<open>load\<close> has returned before, and the
  first equation repeats that return.
\<close>

fun switch_source ::
  "env \<Rightarrow> entries \<Rightarrow> string \<Rightarrow> cacheItem \<Rightarrow> gotype \<Rightarrow> iface \<Rightarrow>
     entries \<times> bool \<times> error option \<times> string option" where
  "switch_source E C key item t INil = (C, False, None, None)"
| "switch_source E C key item t (IString s) =
     (case unmarshal E s t of
        Inl err \<Rightarrow>
          if kind_of t = KString then (C, True, None, Some s)
          else (C, False, Some err, None)
      | Inr v \<Rightarrow> (C(key \<mapsto> item\<lparr>source := IReflect t v\<rparr>), True, None, Some v))"
| "switch_source E C key item t (IReflect t' v) =
     (if t = t' then (C, True, None, Some v)
      else (C, False, Some (TypeNotMatch t), None))"
| "switch_source E C key item t IReflectZero =
     (C, False, Some (Panic ''reflect: call of reflect.Value.Type on zero Value''), None)"
| "switch_source E C key item t (IOther n k v) =
     (if TOther n k = t then (C, True, None, Some v)
      else (C, False, Some (TypeNotMatch t), None))"

definition load ::
  "env \<Rightarrow> int \<Rightarrow> entries \<Rightarrow> string \<Rightarrow> out_arg \<Rightarrow>
     entries \<times> bool \<times> error option \<times> string option" where
  "load E now C key out =
     (case C key of
        None \<Rightarrow> (C, False, None, None)
      | Some item \<Rightarrow>
          if source item = INil then (C, False, None, None)
          else if expireAt item \<noteq> 0 \<and> now > expireAt item then
            (C(key \<mapsto> \<lparr>source = INil, expireAt = expireAt item\<rparr>), False, None, None)
          else
            (case out of
               OutPtr t \<Rightarrow> switch_source E C key item t (source item)
             | _ \<Rightarrow> (C, False, Some OutNotPtr, None)))"

text \<open>
  \<open>Load\<close>: the deferred function records the resolved key and the response when the
  call returns without error in record mode.
\<close>

definition Load ::
  "env \<Rightarrow> int \<Rightarrow> ctx \<Rightarrow> string \<Rightarrow> out_arg \<Rightarrow> astate \<Rightarrow>
     astate \<times> bool \<times> error option \<times> string option" where
  "Load E now c key out st =
     (case getKey E c key of
        (k, Some err) \<Rightarrow> (st, False, Some err, None)
      | (k, None) \<Rightarrow>
          (case load E now (entries_of st) k out of
             (C, ok, err, w) \<Rightarrow>
               (st\<lparr>entries_of := C,
                   recorded :=
                     (if err = None \<and> record_mode E
                      then recorded st @ [(k, if ok then Loaded w else EmptyValue)]
                      else recorded st)\<rparr>,
                ok, err, w)))"

record StoreArg =
  TTL :: int

type_synonym StoreOption = "StoreArg \<Rightarrow> StoreArg"

definition TTL_option :: "int \<Rightarrow> StoreOption" where
  "TTL_option ttl = (\<lambda>arg. arg\<lparr>TTL := ttl\<rparr>)"

text \<open>
  The expiry \<open>Store\<close> computes: the options are applied in order to a zero
  \<open>StoreArg\<close>, and a positive TTL gives the clock reading plus the TTL, else the zero
  time.
\<close>

definition store_expire :: "int \<Rightarrow> StoreOption list \<Rightarrow> int" where
  "store_expire now opts =
     (let arg = fold (\<lambda>opt a. opt a) opts \<lparr>TTL = 0\<rparr>
      in if TTL arg > 0 then now + TTL arg else 0)"

definition Store ::
  "env \<Rightarrow> int \<Rightarrow> ctx \<Rightarrow> string \<Rightarrow> iface \<Rightarrow> StoreOption list \<Rightarrow> astate \<Rightarrow>
     astate \<times> error option" where
  "Store E now c key val opts st =
     (let expire = store_expire now opts
      in case getKey E c key of
           (k, Some err) \<Rightarrow> (st, Some err)
         | (k, None) \<Rightarrow>
             (st\<lparr>entries_of := (entries_of st)(k \<mapsto> \<lparr>source = val, expireAt = expire\<rparr>)\<rparr>,
              None))"

text \<open>\<open>Delete\<close> drops the error of \<open>getKey\<close> and deletes under the key it returned.\<close>

definition Delete :: "env \<Rightarrow> ctx \<Rightarrow> string \<Rightarrow> astate \<Rightarrow> astate" where
  "Delete E c key st = st\<lparr>entries_of := (entries_of st)(fst (getKey E c key) := None)\<rparr>"

text \<open>\<open>Range\<close> shows each key with the source of its item.\<close>

definition Range :: "astate \<Rightarrow> (string \<rightharpoonup> iface)" where
  "Range st = (\<lambda>k. map_option source (entries_of st k))"

text \<open>A run of \<open>Load\<close> calls on one key, each with its own clock reading and \<open>out\<close>.\<close>

fun Load_seq ::
  "env \<Rightarrow> ctx \<Rightarrow> string \<Rightarrow> (int \<times> out_arg) list \<Rightarrow> astate \<Rightarrow>
     astate \<times> (bool \<times> error option \<times> string option) list" where
  "Load_seq E c key [] st = (st, [])"
| "Load_seq E c key ((now, out) # rest) st =
     (case Load E now c key out st of
        (st', r) \<Rightarrow> (case Load_seq E c key rest st' of (st'', rs) \<Rightarrow> (st'', r # rs)))"

section \<open>Concrete states and collaborators for the examples\<close>

text \<open>
  A heap of knife with one store at address 0 that binds \<open>a\<close> to the string \<open>1\<close>; the context
  \<open>WithStore Background 0\<close> carries it.
\<close>

definition s0 :: kstate where
  "s0 = \<lparr>maps = (\<lambda>a. Map.empty)(0 := [''a'' \<mapsto> IString ''1'']), nxt = 1\<rparr>"

text \<open>
  An example of \<open>GetSessionID\<close>: the session id is the value bound to the key
  \<open>session\<close> in the context, and a context without that binding gives an error.
\<close>

fun sid_of :: "ctx \<Rightarrow> string \<times> error option" where
  "sid_of Background = ([], Some (SessionIDError ''session id not found''))"
| "sid_of (WithStore c a) = sid_of c"
| "sid_of (WithValue c k v) = (if k = ''session'' then (v, None) else sid_of c)"

text \<open>
  An example of the JSON decoder: it accepts the text \<open>{}\<close>, the empty object, for
  the types of kind pointer, struct, map and interface, and nothing else.
\<close>

definition decode_object :: "string \<Rightarrow> gotype \<Rightarrow> error + string" where
  "decode_object s t =
     (if s = ''{}'' \<and> (kind_of t = KPtr \<or> kind_of t = KStruct \<or> kind_of t = KMap
                        \<or> kind_of t = KInterface)
      then Inr s else Inl (JSONError s))"

text \<open>Two example environments, in replay mode and not.\<close>

definition E0 :: env where
  "E0 = \<lparr>replay_mode = True, record_mode = False, get_session_id = sid_of,
          unmarshal = decode_object\<rparr>"

definition E1 :: env where
  "E1 = \<lparr>replay_mode = False, record_mode = False, get_session_id = sid_of,
          unmarshal = decode_object\<rparr>"

text \<open>Example element types of \<open>out\<close>: two distinct pointer types.\<close>

definition tData :: gotype where "tData = TOther ''*dataType'' KPtr"
definition tUser :: gotype where "tUser = TOther ''*userType'' KPtr"

text \<open>
  Example states: the empty cache; a cache with an entry under the empty key and an
  entry \<open>a\<close> that expires at time 5; the cache after storing the string \<open>{}\<close> under
  \<open>k\<close>; and that cache after loading \<open>k\<close> once into a variable of type \<open>tData\<close>.
\<close>

definition st0 :: astate where
  "st0 = \<lparr>entries_of = Map.empty, recorded = []\<rparr>"

definition st1 :: astate where
  "st1 = \<lparr>entries_of = [[] \<mapsto> \<lparr>source = IString ''x'', expireAt = 0\<rparr>,
                        ''a'' \<mapsto> \<lparr>source = IString ''{}'', expireAt = 5\<rparr>],
          recorded = []\<rparr>"

definition st_k :: astate where
  "st_k = fst (Store E1 0 Background ''k'' (IString ''{}'') [] st0)"

definition st2 :: astate where
  "st2 = fst (Load E1 0 Background ''k'' (OutPtr tData) st_k)"

text \<open>
  Example contexts bound to the session ids \<open>a\<close>, \<open>ab\<close>, \<open>b\<close>, \<open>s9\<close> and
  \<open>s10\<close>.
\<close>

definition ca :: ctx where "ca = WithValue Background ''session'' ''a''"
definition cab :: ctx where "cab = WithValue Background ''session'' ''ab''"
definition cb :: ctx where "cb = WithValue Background ''session'' ''b''"
definition cs9 :: ctx where "cs9 = WithValue Background ''session'' ''s9''"
definition cs10 :: ctx where "cs10 = WithValue Background ''session'' ''s10''"

text \<open>
  The context of the test of apcu, bound to the session id of the test, and the
  pointer to a \<open>dataType\<close> that the test stores.
\<close>

definition ctx_test :: ctx where
  "ctx_test = WithValue (WithStore Background 0) ''session'' ''39fc5c13443f47da9ff320cc4b02c789''"

definition data_test :: iface where
  "data_test = IOther ''*dataType'' KPtr ''success''"

section \<open>The replayer\<close>

text \<open>
  Modelled from the spec: the package \<open>replayer\<close> and the types of \<open>fastdev\<close> it
  works on are not among the sources; only a test that calls them is. What follows
  is the data model of section 3 of the specification. A Message is the text its
  function returns. An Action has a protocol name, a timestamp, a request and a
  response; its label is what the plugin of its protocol derives from its request.
\<close>

record action =
  protocol :: string
  timestamp :: int
  request :: string
  response :: string

text \<open>
  Modelled from the spec: a Session, with its id, its timestamp, the optional
  Inbound Action and the outbound Actions.
\<close>

record session_rec =
  session_id :: string
  session_timestamp :: int
  inbound :: "action option"
  actions :: "action list"

text \<open>
  Modelled from the spec: a protocol plugin with its four operations; a field map is
  the list of its entries. The registry maps a protocol name to its plugin.
\<close>

record plugin =
  should_diff :: bool
  get_label :: "string \<Rightarrow> string"
  flat_request :: "string \<Rightarrow> error + (string \<times> string) list"
  flat_response :: "string \<Rightarrow> error + (string \<times> string) list"

type_synonym registry = "string \<rightharpoonup> plugin"

text \<open>
  Modelled from the spec: the replay session store maps a session id to the stored
  Session with one consumption flag per Action.
\<close>

record stored =
  recorded_session :: session_rec
  consumed :: "bool list"
  inbound_consumed :: bool

type_synonym replay_store = "string \<rightharpoonup> stored"

text \<open>
  Modelled from the spec: \<open>Store(session)\<close> of the replayer "validates the Session
  (non-empty id) and installs it into the process-wide store keyed by session id,
  resetting all consumption flags for that id"; a later \<open>Store\<close> for the same id
  replaces the earlier one.
\<close>

definition replayer_Store :: "replay_store \<Rightarrow> session_rec \<Rightarrow> replay_store \<times> error option" where
  "replayer_Store S sess =
     (if session_id sess = [] then (S, Some InvalidSession)
      else (S(session_id sess \<mapsto>
              \<lparr>recorded_session = sess,
               consumed = replicate (length (actions sess)) False,
               inbound_consumed = False\<rparr>), None))"

text \<open>
  Modelled from the spec: the structural comparison of two flattened requests,
  "field-by-field, order-independent".
\<close>

definition same_fields :: "(string \<times> string) list \<Rightarrow> (string \<times> string) list \<Rightarrow> bool" where
  "same_fields m m' = (set m = set m')"

text \<open>
  Modelled from the spec: the flattened request of the live call, needed only when
  the plugin's \<open>ShouldDiff\<close> is true. A request that does not flatten is a failure of
  the replay path, which the specification has surfaced to the caller.
\<close>

definition live_fields :: "plugin \<Rightarrow> string \<Rightarrow> error + (string \<times> string) list" where
  "live_fields p req = (if should_diff p then flat_request p req else Inr [])"

text \<open>
  Modelled from the spec: a recorded Action is a candidate for a request when it has
  the protocol asked for, its recorded request carries the label of the request, and,
  if \<open>ShouldDiff\<close> is true, its flattened recorded request has the same fields as the
  flattened request. The candidates of a stored session are its unconsumed
  candidates, each with its position among the Actions, which stands for the identity
  of the Action.
\<close>

definition candidate :: "plugin \<Rightarrow> string \<Rightarrow> string \<Rightarrow> (string \<times> string) list \<Rightarrow> action \<Rightarrow> bool" where
  "candidate p proto req flat a =
     (protocol a = proto \<and> get_label p (request a) = get_label p req
      \<and> (should_diff p \<longrightarrow>
           (case flat_request p (request a) of
              Inl err \<Rightarrow> False
            | Inr flat' \<Rightarrow> same_fields flat flat')))"

definition candidates ::
  "plugin \<Rightarrow> string \<Rightarrow> string \<Rightarrow> (string \<times> string) list \<Rightarrow> stored \<Rightarrow> (nat \<times> action) list" where
  "candidates p proto req flat st =
     [(i, a). (i, a, used) \<leftarrow> enumerate 0 (zip (actions (recorded_session st)) (consumed st)),
              \<not> used \<and> candidate p proto req flat a]"

text \<open>
  Modelled from the spec: "selects the one with the smallest timestamp that is still
  unconsumed"; among equal timestamps the earlier position wins.
\<close>

fun earliest :: "(nat \<times> action) list \<Rightarrow> (nat \<times> action) option" where
  "earliest [] = None"
| "earliest (x # xs) =
     (case earliest xs of
        None \<Rightarrow> Some x
      | Some y \<Rightarrow> if timestamp (snd x) \<le> timestamp (snd y) then Some x else Some y)"

text \<open>
  Modelled from the spec: \<open>ReplayAction(ctx, protocolName, requestText)\<close> resolves
  the session id from the context (its absence is the error of \<open>GetSessionID\<close>),
  looks up the stored Session and the plugin (NotFound when either is missing),
  selects the earliest candidate and marks it consumed; without a candidate it fails
  NotFound. The diagnostic near-miss of the NotFound error is left out.
\<close>

definition ReplayAction ::
  "env \<Rightarrow> registry \<Rightarrow> replay_store \<Rightarrow> ctx \<Rightarrow> string \<Rightarrow> string \<Rightarrow>
     replay_store \<times> (error + nat \<times> action)" where
  "ReplayAction E reg S c proto req =
     (case get_session_id E c of
        (sid, Some err) \<Rightarrow> (S, Inl err)
      | (sid, None) \<Rightarrow>
          (case S sid of
             None \<Rightarrow> (S, Inl NotFound)
           | Some st \<Rightarrow>
               (case reg proto of
                  None \<Rightarrow> (S, Inl NotFound)
                | Some p \<Rightarrow>
                    (case live_fields p req of
                       Inl err \<Rightarrow> (S, Inl err)
                     | Inr flat \<Rightarrow>
                         (case earliest (candidates p proto req flat st) of
                            None \<Rightarrow> (S, Inl NotFound)
                          | Some (i, a) \<Rightarrow>
                              (S(sid \<mapsto> st\<lparr>consumed := (consumed st)[i := True]\<rparr>),
                               Inr (i, a)))))))"

text \<open>A run of \<open>ReplayAction\<close> calls, each with its context, protocol and request.\<close>

fun replay_seq ::
  "env \<Rightarrow> registry \<Rightarrow> (ctx \<times> string \<times> string) list \<Rightarrow> replay_store \<Rightarrow>
     replay_store \<times> (error + nat \<times> action) list" where
  "replay_seq E reg [] S = (S, [])"
| "replay_seq E reg ((c, proto, req) # calls) S =
     (case ReplayAction E reg S c proto req of
        (S', r) \<Rightarrow> (case replay_seq E reg calls S' of (S'', rs) \<Rightarrow> (S'', r # rs)))"

text \<open>
  The bucket of a request text in a list of Actions, under a plugin and a protocol
  name: the positions of the Actions that are candidates for the request, in
  ascending order; there is none when the request does not flatten.
\<close>

definition request_bucket :: "plugin \<Rightarrow> string \<Rightarrow> string \<Rightarrow> action list \<Rightarrow> nat list option" where
  "request_bucket p proto req as =
     (case live_fields p req of
        Inl err \<Rightarrow> None
      | Inr flat \<Rightarrow> Some [i \<leftarrow> [0..<length as]. candidate p proto req flat (as ! i)])"

text \<open>The positions of a stored session that are not consumed yet.\<close>

definition unconsumed :: "stored \<Rightarrow> nat set" where
  "unconsumed st =
     set [i \<leftarrow> [0..<min (length (actions (recorded_session st))) (length (consumed st))].
            \<not> consumed st ! i]"

text \<open>Whether the Action at a position of a stored session has been delivered.\<close>

definition delivered :: "replay_store \<Rightarrow> string \<Rightarrow> nat \<Rightarrow> bool" where
  "delivered S sid i =
     (case S sid of None \<Rightarrow> False | Some st \<Rightarrow> i < length (consumed st) \<and> consumed st ! i)"

text \<open>
  An example for the replayer: a plugin whose label is the first four characters and
  whose field map has the whole text as its one field; a session with two Actions of
  the request \<open>SET a 1\<close> recorded at the times 30 and 10, one of the request
  \<open>HGET a\<close>, which has another label, and one of the request \<open>SET a 2\<close>, which has
  the same label and other fields; and three calls with the request \<open>SET a 1\<close> from
  a context bound to the session.
\<close>

definition redis :: plugin where
  "redis = \<lparr>should_diff = True, get_label = take 4,
            flat_request = (\<lambda>s. Inr [(''0'', s)]), flat_response = (\<lambda>s. Inr [(''0'', s)])\<rparr>"

definition reg0 :: registry where
  "reg0 = [''REDIS'' \<mapsto> redis]"

definition act :: "string \<Rightarrow> int \<Rightarrow> action" where
  "act req t = \<lparr>protocol = ''REDIS'', timestamp = t, request = req, response = ''1''\<rparr>"

definition sess0 :: session_rec where
  "sess0 = \<lparr>session_id = ''s1'', session_timestamp = 0, inbound = None,
            actions = [act ''SET a 1'' 30, act ''HGET a'' 5, act ''SET a 1'' 10,
                       act ''SET a 2'' 1]\<rparr>"

definition cs1 :: ctx where "cs1 = WithValue Background ''session'' ''s1''"

definition calls0 :: "(ctx \<times> string \<times> string) list" where
  "calls0 = map (\<lambda>r. (cs1, ''REDIS'', r)) [''SET a 1'', ''SET a 1'']"

section \<open>The command-line codec\<close>

text \<open>
  Modelled from the spec: the package \<open>cast\<close> with \<open>ToCommandLine\<close> and
  \<open>ParseCommandLine\<close> is not among the sources; only a test that calls them is.
  Section 4.2 of the specification has the encoder join the values with a separator
  and escape reversibly every separator, quoting character and non-printable byte of a
  value, and has the decoder fail with a parse error on a malformed escape sequence
  and on unbalanced quoting. The specification names neither the characters nor the
  escape sequences. The separator is the space, as in the request \<open>SET a 1\<close> of
  section 8; the quoting character is the double quote and the escape character the
  backslash. A byte is a \<open>char\<close>.
\<close>

definition separator :: char where "separator = CHR 0x20"
definition quote_char :: char where "quote_char = CHR 0x22"
definition escape_char :: char where "escape_char = CHR 0x5C"

text \<open>
  Modelled from the spec: the printable bytes are the graphic ASCII characters; a
  plain byte is a printable one other than the quoting and the escape character, and
  stands for itself outside quotes.
\<close>

definition printable :: "char \<Rightarrow> bool" where
  "printable c = (33 \<le> (of_char c :: nat) \<and> (of_char c :: nat) \<le> 126)"

definition plain :: "char \<Rightarrow> bool" where
  "plain c = (printable c \<and> c \<noteq> quote_char \<and> c \<noteq> escape_char)"

text \<open>
  Modelled from the spec: a non-printable byte is escaped as the escape character,
  \<open>x\<close> and two hexadecimal digits (written in lower case, read in either case).
\<close>

definition hex_digit :: "nat \<Rightarrow> char" where
  "hex_digit n = char_of (if n < 10 then 48 + n else 87 + n)"

definition hex_val :: "char \<Rightarrow> nat option" where
  "hex_val c =
     (let n = (of_char c :: nat)
      in if 48 \<le> n \<and> n \<le> 57 then Some (n - 48)
         else if 97 \<le> n \<and> n \<le> 102 then Some (n - 87)
         else if 65 \<le> n \<and> n \<le> 70 then Some (n - 55)
         else None)"

text \<open>
  Modelled from the spec: inside quotes the quoting and the escape character are
  preceded by the escape character, a printable byte and the separator stand for
  themselves, and every other byte is written in hexadecimal.
\<close>

definition escape_byte :: "char \<Rightarrow> string" where
  "escape_byte c =
     (if c = quote_char \<or> c = escape_char then [escape_char, c]
      else if printable c \<or> c = separator then [c]
      else [escape_char, CHR ''x'', hex_digit (of_char c div 16), hex_digit (of_char c mod 16)])"

text \<open>
  Modelled from the spec: a non-empty value of plain bytes is written as it is; every
  other value, the empty one included, is written between quoting characters with its
  bytes escaped.
\<close>

definition encode_value :: "string \<Rightarrow> string" where
  "encode_value v =
     (if v \<noteq> [] \<and> list_all plain v then v
      else quote_char # concat (map escape_byte v) @ [quote_char])"

text \<open>
  Modelled from the spec: \<open>ToCommandLine\<close> "joins values with a separator"; the empty
  list gives the empty text.
\<close>

fun join_values :: "string list \<Rightarrow> string" where
  "join_values [] = []"
| "join_values [v] = encode_value v"
| "join_values (v # w # vs) = encode_value v @ separator # join_values (w # vs)"

definition ToCommandLine :: "string list \<Rightarrow> string" where
  "ToCommandLine vs = join_values vs"

text \<open>
  Modelled from the spec: the decoder reads the text byte by byte. \<open>parse_token\<close>
  stands at the start of a value, \<open>in_bare\<close> inside an unquoted value, \<open>in_quoted\<close>
  inside a quoted one and \<open>after_quote\<close> behind a closing quoting character; \<open>cur\<close>
  holds the bytes of the current value and \<open>vals\<close> the finished values, both in
  reverse. The text is malformed when a value is missing before or after a separator,
  when an unquoted value holds a byte that is not plain, when a quoted value is not
  closed or is followed by anything but a separator, and when the escape character is
  followed by anything but itself, the quoting character, or \<open>x\<close> and two hexadecimal
  digits.
\<close>

fun parse_token :: "string \<Rightarrow> string list \<Rightarrow> error + string list"
  and in_bare :: "string \<Rightarrow> string \<Rightarrow> string list \<Rightarrow> error + string list"
  and in_quoted :: "string \<Rightarrow> string \<Rightarrow> string list \<Rightarrow> error + string list"
  and after_quote :: "string \<Rightarrow> string list \<Rightarrow> error + string list" where
  "parse_token [] vals = Inl Malformed"
| "parse_token (c # cs) vals =
     (if c = quote_char then in_quoted cs [] vals
      else if plain c then in_bare cs [c] vals
      else Inl Malformed)"
| "in_bare [] cur vals = Inr (rev (rev cur # vals))"
| "in_bare (c # cs) cur vals =
     (if c = separator then parse_token cs (rev cur # vals)
      else if plain c then in_bare cs (c # cur) vals
      else Inl Malformed)"
| "in_quoted [] cur vals = Inl Malformed"
| "in_quoted (c # cs) cur vals =
     (if c = quote_char then after_quote cs (rev cur # vals)
      else if c = escape_char then
        (case cs of
           [] \<Rightarrow> Inl Malformed
         | d # ds \<Rightarrow>
             if d = quote_char \<or> d = escape_char then in_quoted ds (d # cur) vals
             else if d = CHR ''x'' then
               (case ds of
                  h # l # es \<Rightarrow>
                    (case hex_val h of
                       None \<Rightarrow> Inl Malformed
                     | Some a \<Rightarrow>
                         (case hex_val l of
                            None \<Rightarrow> Inl Malformed
                          | Some b \<Rightarrow> in_quoted es (char_of (16 * a + b) # cur) vals))
                | _ \<Rightarrow> Inl Malformed)
             else Inl Malformed)
      else in_quoted cs (c # cur) vals)"
| "after_quote [] vals = Inr (rev vals)"
| "after_quote (c # cs) vals =
     (if c = separator then parse_token cs vals else Inl Malformed)"

text \<open>Modelled from the spec: \<open>ParseCommandLine\<close>; the empty text is the empty list.\<close>

definition ParseCommandLine :: "string \<Rightarrow> error + string list" where
  "ParseCommandLine text = (if text = [] then Inr [] else parse_token text [])"

text \<open>The binary value of the test of the replayer: bytes 00 c0 0a 09 00 be 6d 06 89 5a 28 00 0a.\<close>

definition test_bytes :: string where
  "test_bytes = [CHR 0x00, CHR 0xC0, CHR 0x0A, CHR 0x09, CHR 0x00, CHR 0xBE, CHR 0x6D, CHR 0x06,
                 CHR 0x89, CHR 0x5A, CHR 0x28, CHR 0x00, CHR 0x0A]"

section \<open>Properties of knife\<close>

text \<open>
  The loop of \<open>Copy\<close> succeeds when no key that the source holds is listed twice and
  none of the listed keys is bound in the destination yet; the destination then holds
  the source restricted to the listed keys.
\<close>

lemma copy_keys_ok:
  assumes "cache dest = Some c" and "c \<noteq> m"
  shows "distinct (filter (\<lambda>k. maps s m k \<noteq> None) keys) \<Longrightarrow> \<forall>k \<in> set keys. maps s c k = None \<Longrightarrow>
     copy_keys s m dest keys = (s\<lparr>maps := (maps s)(c := maps s c ++ (maps s m |` set keys))\<rparr>, None)"
proof (induction keys arbitrary: s)
  case Nil
  then show ?case by simp
next
  case (Cons k ks)
  show ?case
  proof (cases "maps s m k")
    case None
    have "maps s m |` set (k # ks) = maps s m |` set ks"
      using None by (auto simp: restrict_map_def fun_eq_iff)
    with Cons None show ?thesis by simp
  next
    case (Some v)
    define s' where "s' = s\<lparr>maps := (maps s)(c := (maps s c)(k \<mapsto> v))\<rparr>"
    have kc: "maps s c k = None" using Cons.prems by simp
    have knot: "k \<notin> set ks" using Cons.prems(1) Some by auto
    have st: "Set s dest k v = (s', None)"
      using assms kc by (simp add: Set_def s'_def)
    have m': "maps s' m = maps s m" using assms by (simp add: s'_def)
    have c': "maps s' c = (maps s c)(k \<mapsto> v)" by (simp add: s'_def)
    have d: "distinct (filter (\<lambda>k. maps s' m k \<noteq> None) ks)"
      using Cons.prems(1) Some m' by simp
    have e: "\<forall>k' \<in> set ks. maps s' c k' = None"
      using Cons.prems(2) knot c' by auto
    have ih: "copy_keys s' m dest ks = (s'\<lparr>maps := (maps s')(c := maps s' c ++ (maps s' m |` set ks))\<rparr>, None)"
      by (rule Cons.IH [OF d e])
    have eq: "(maps s c)(k \<mapsto> v) ++ (maps s m |` set ks) = maps s c ++ (maps s m |` set (k # ks))"
      using Some knot by (auto simp: map_add_def restrict_map_def fun_eq_iff split: option.splits)
    have "s'\<lparr>maps := (maps s')(c := maps s' c ++ (maps s' m |` set ks))\<rparr>
        = s\<lparr>maps := (maps s)(c := maps s c ++ (maps s m |` set (k # ks)))\<rparr>"
      unfolding m' c' eq by (simp add: s'_def)
    with ih have "copy_keys s' m dest ks = (s\<lparr>maps := (maps s)(c := maps s c ++ (maps s m |` set (k # ks)))\<rparr>, None)"
      by simp
    then show ?thesis by (simp only: copy_keys.simps Some option.case st prod.case)
  qed
qed

text \<open>
  Otherwise the loop ends with the duplicate-key error of \<open>Set\<close>.
\<close>

lemma copy_keys_dup:
  assumes "cache dest = Some c" and "c \<noteq> m"
  shows "\<not> distinct (filter (\<lambda>k. maps s m k \<noteq> None) keys) \<or> (\<exists>k \<in> set keys. maps s m k \<noteq> None \<and> maps s c k \<noteq> None) \<Longrightarrow>
     \<exists>s' k. k \<in> set keys \<and> maps s m k \<noteq> None \<and> copy_keys s m dest keys = (s', Some (DuplicateKey k))"
proof (induction keys arbitrary: s)
  case Nil
  then show ?case by simp
next
  case (Cons k ks)
  show ?case
  proof (cases "maps s m k")
    case None
    have "\<not> distinct (filter (\<lambda>k. maps s m k \<noteq> None) ks) \<or> (\<exists>k \<in> set ks. maps s m k \<noteq> None \<and> maps s c k \<noteq> None)"
      using Cons.prems None by auto
    from Cons.IH [OF this] None show ?thesis by auto
  next
    case (Some v)
    show ?thesis
    proof (cases "maps s c k")
      case (Some old)
      then have "Set s dest k v = (s, Some (DuplicateKey k))"
        using assms by (simp add: Set_def)
      with \<open>maps s m k = Some v\<close> show ?thesis by auto
    next
      case None
      define s' where "s' = s\<lparr>maps := (maps s)(c := (maps s c)(k \<mapsto> v))\<rparr>"
      have st: "Set s dest k v = (s', None)"
        using assms None by (simp add: Set_def s'_def)
      have m': "maps s' m = maps s m" using assms by (simp add: s'_def)
      have c': "maps s' c = (maps s c)(k \<mapsto> v)" by (simp add: s'_def)
      have "\<not> distinct (filter (\<lambda>k. maps s' m k \<noteq> None) ks) \<or> (\<exists>k \<in> set ks. maps s' m k \<noteq> None \<and> maps s' c k \<noteq> None)"
        using Cons.prems \<open>maps s m k = Some v\<close> None unfolding m' c' by auto
      from Cons.IH [OF this] obtain s2 k2 where
        "k2 \<in> set ks" "maps s' m k2 \<noteq> None" "copy_keys s' m dest ks = (s2, Some (DuplicateKey k2))"
        by blast
      then show ?thesis using \<open>maps s m k = Some v\<close> st m' by auto
    qed
  qed
qed

subsection \<open>Set rejects a key that is already bound\<close>

text \<open>
  Claim C3. On a context with an attached store, \<open>Set\<close> for a key that the store
  already binds returns the duplicate-key error, leaves the whole heap as it was, and
  \<open>Get\<close> still returns the value stored before.
\<close>

theorem Set_rejects_duplicate:
  assumes "cache c = Some a" and "maps s a key = Some old"
  shows "Set s c key val = (s, Some (DuplicateKey key))
         \<and> Get (fst (Set s c key val)) c key = (old, True)"
  using assms by (simp add: Set_def Get_def)

text \<open>The example: \<open>a\<close> is bound to \<open>1\<close>, and setting it to \<open>2\<close> is rejected.\<close>

theorem Set_rejects_duplicate_witness:
  "cache (WithStore Background 0) = Some 0
   \<and> maps s0 0 ''a'' = Some (IString ''1'')
   \<and> Set s0 (WithStore Background 0) ''a'' (IString ''2'') = (s0, Some (DuplicateKey ''a''))
   \<and> Get (fst (Set s0 (WithStore Background 0) ''a'' (IString ''2''))) (WithStore Background 0) ''a''
       = (IString ''1'', True)"
proof -
  have c: "cache (WithStore Background 0) = Some 0" by simp
  have m: "maps s0 0 ''a'' = Some (IString ''1'')" by (simp add: s0_def)
  show ?thesis
    using Set_rejects_duplicate [OF c m, of "IString ''2''"] c m by blast
qed

subsection \<open>New attaches a store once\<close>

text \<open>
  Claim C7. On a context that carries a store \<open>New\<close> returns the same context, the
  same heap and \<open>cached = true\<close>. On a context without one it returns, with
  \<open>cached = false\<close>, the context derived by one binding to the map at the next free
  address; that map is empty, no other map changes, and the address is not among those
  of the given context when they were all allocated. \<open>New\<close> applied to the result of
  \<open>New\<close> attaches nothing: it returns its argument with \<open>cached = true\<close>.
\<close>

theorem New_attach_once:
  "(cache c \<noteq> None \<longrightarrow> New s c = (s, c, True))
   \<and> (cache c = None \<longrightarrow>
        (\<exists>s'. New s c = (s', WithStore c (nxt s), False)
            \<and> cache (WithStore c (nxt s)) = Some (nxt s)
            \<and> maps s' (nxt s) = Map.empty \<and> nxt s' = Suc (nxt s)
            \<and> (\<forall>a. a \<noteq> nxt s \<longrightarrow> maps s' a = maps s a)
            \<and> (ctx_ok s c \<longrightarrow> nxt s \<notin> addrs c)))
   \<and> (case New s c of (s1, c1, b1) \<Rightarrow> New s1 c1 = (s1, c1, True))"
  by (auto simp: New_def ctx_ok_def split: option.splits)

theorem New_attach_once_witness:
  "cache (WithStore Background 0) \<noteq> None
   \<and> New s0 (WithStore Background 0) = (s0, WithStore Background 0, True)
   \<and> cache (WithValue Background ''k'' ''v'') = None
   \<and> ctx_ok s0 (WithValue Background ''k'' ''v'')
   \<and> fst (snd (New s0 (WithValue Background ''k'' ''v''))) = WithStore (WithValue Background ''k'' ''v'') 1
   \<and> snd (snd (New s0 (WithValue Background ''k'' ''v''))) = False
   \<and> maps (fst (New s0 (WithValue Background ''k'' ''v''))) 1 = Map.empty
   \<and> (1::nat) \<notin> addrs (WithValue Background ''k'' ''v'')"
  using New_attach_once [of "WithStore Background 0" s0]
        New_attach_once [of "WithValue Background ''k'' ''v''" s0]
  by (auto simp: s0_def ctx_ok_def)

subsection \<open>Get after Set\<close>

text \<open>
  Claim C8. On a context with an attached store, when \<open>Set\<close> returns the nil error,
  \<open>Get\<close> of that key in the resulting heap returns the value set and \<open>true\<close>. On a
  context without a store \<open>Get\<close> returns \<open>(nil, false)\<close> and \<open>Set\<close> returns an error.
\<close>

theorem Set_then_Get:
  "(cache c \<noteq> None \<longrightarrow> snd (Set s c key val) = None \<longrightarrow>
      Get (fst (Set s c key val)) c key = (val, True))
   \<and> (cache c = None \<longrightarrow> Get s c key = (INil, False) \<and> snd (Set s c key val) \<noteq> None)"
  by (auto simp: Set_def Get_def split: option.splits)

theorem Set_then_Get_witness:
  "cache (WithStore Background 0) \<noteq> None
   \<and> snd (Set s0 (WithStore Background 0) ''b'' (IString ''2'')) = None
   \<and> Get (fst (Set s0 (WithStore Background 0) ''b'' (IString ''2''))) (WithStore Background 0) ''b''
       = (IString ''2'', True)
   \<and> cache Background = None
   \<and> Get s0 Background ''b'' = (INil, False)
   \<and> snd (Set s0 Background ''b'' (IString ''2'')) \<noteq> None"
proof -
  have a: "snd (Set s0 (WithStore Background 0) ''b'' (IString ''2'')) = None"
    by (simp add: Set_def s0_def)
  show ?thesis
    using Set_then_Get [of "WithStore Background 0" s0 "''b''" "IString ''2''"]
          Set_then_Get [of Background s0 "''b''" "IString ''2''"] a
    by simp
qed

subsection \<open>Copy\<close>

text \<open>
  Claim C9, as amended. On a source without a store \<open>Copy\<close> returns the nil context
  and the nil error. On a source whose store was allocated before and with explicit
  keys: when no key that the source holds is listed twice, \<open>Copy\<close> returns the nil
  error and the context \<open>WithStore Background a\<close> for the fresh address \<open>a\<close>, whose
  map is the source's map restricted to the listed keys, and no other map changes; when
  a key that the source holds is listed twice, \<open>Copy\<close> returns the nil context and the
  duplicate-key error for such a key.
\<close>

theorem Copy_spec:
  "(cache src = None \<longrightarrow> Copy s src keys = (s, None, None))
   \<and> (\<forall>m. cache src = Some m \<and> m < nxt s \<and> keys \<noteq> [] \<longrightarrow>
        (if distinct (filter (\<lambda>k. maps s m k \<noteq> None) keys)
         then \<exists>s'. Copy s src keys = (s', Some (WithStore Background (nxt s)), None)
                \<and> maps s' (nxt s) = maps s m |` set keys
                \<and> (\<forall>a. a \<noteq> nxt s \<longrightarrow> maps s' a = maps s a)
         else \<exists>s' k. k \<in> set keys \<and> maps s m k \<noteq> None
                \<and> Copy s src keys = (s', None, Some (DuplicateKey k))))"
proof (intro conjI allI impI)
  show "cache src = None \<Longrightarrow> Copy s src keys = (s, None, None)"
    by (simp add: Copy_def)
next
  fix m assume a: "cache src = Some m \<and> m < nxt s \<and> keys \<noteq> []"
  define s1 where "s1 = s\<lparr>maps := (maps s)(nxt s := Map.empty), nxt := Suc (nxt s)\<rparr>"
  define dest where "dest = WithStore Background (nxt s)"
  have new: "New s Background = (s1, dest, False)" by (simp add: New_def s1_def dest_def)
  have cd: "cache dest = Some (nxt s)" by (simp add: dest_def)
  have ne: "nxt s \<noteq> m" using a by simp
  have m1: "maps s1 m = maps s m" using ne by (simp add: s1_def)
  have c1: "maps s1 (nxt s) = Map.empty" by (simp add: s1_def)
  have cp: "Copy s src keys = (case copy_keys s1 m dest keys of (s2, Some e) \<Rightarrow> (s2, None, Some e) | (s2, None) \<Rightarrow> (s2, Some dest, None))"
    using a new by (simp add: Copy_def)
  show "if distinct (filter (\<lambda>k. maps s m k \<noteq> None) keys)
         then \<exists>s'. Copy s src keys = (s', Some (WithStore Background (nxt s)), None)
                \<and> maps s' (nxt s) = maps s m |` set keys
                \<and> (\<forall>a. a \<noteq> nxt s \<longrightarrow> maps s' a = maps s a)
         else \<exists>s' k. k \<in> set keys \<and> maps s m k \<noteq> None \<and> Copy s src keys = (s', None, Some (DuplicateKey k))"
  proof (cases "distinct (filter (\<lambda>k. maps s m k \<noteq> None) keys)")
    case True
    have d: "distinct (filter (\<lambda>k. maps s1 m k \<noteq> None) keys)" using True m1 by simp
    have e: "\<forall>k \<in> set keys. maps s1 (nxt s) k = None" using c1 by simp
    have "copy_keys s1 m dest keys = (s1\<lparr>maps := (maps s1)(nxt s := maps s1 (nxt s) ++ (maps s1 m |` set keys))\<rparr>, None)"
      by (rule copy_keys_ok [OF cd ne d e])
    then have "Copy s src keys = (s1\<lparr>maps := (maps s1)(nxt s := maps s1 (nxt s) ++ (maps s1 m |` set keys))\<rparr>, Some dest, None)"
      using cp by simp
    moreover have "maps (s1\<lparr>maps := (maps s1)(nxt s := maps s1 (nxt s) ++ (maps s1 m |` set keys))\<rparr>) (nxt s) = maps s m |` set keys"
      unfolding m1 c1 by simp
    moreover have "\<forall>a. a \<noteq> nxt s \<longrightarrow> maps (s1\<lparr>maps := (maps s1)(nxt s := maps s1 (nxt s) ++ (maps s1 m |` set keys))\<rparr>) a = maps s a"
      by (simp add: s1_def)
    ultimately show ?thesis using True dest_def by auto
  next
    case False
    have "\<not> distinct (filter (\<lambda>k. maps s1 m k \<noteq> None) keys) \<or> (\<exists>k \<in> set keys. maps s1 m k \<noteq> None \<and> maps s1 (nxt s) k \<noteq> None)"
      using False m1 by simp
    from copy_keys_dup [OF cd ne this] obtain s2 k where
      "k \<in> set keys" "maps s1 m k \<noteq> None" "copy_keys s1 m dest keys = (s2, Some (DuplicateKey k))"
      by blast
    then show ?thesis using False cp m1 by auto
  qed
qed

theorem Copy_spec_witness:
  "cache Background = None
   \<and> Copy s0 Background [''a''] = (s0, None, None)
   \<and> cache (WithStore Background 0) = Some 0 \<and> 0 < nxt s0
   \<and> distinct (filter (\<lambda>k. maps s0 0 k \<noteq> None) [''a'', ''b''])
   \<and> fst (snd (Copy s0 (WithStore Background 0) [''a'', ''b''])) = Some (WithStore Background 1)
   \<and> snd (snd (Copy s0 (WithStore Background 0) [''a'', ''b''])) = None
   \<and> maps (fst (Copy s0 (WithStore Background 0) [''a'', ''b''])) 1 = maps s0 0 |` {''a'', ''b''}
   \<and> \<not> distinct (filter (\<lambda>k. maps s0 0 k \<noteq> None) [''a'', ''a''])
   \<and> fst (snd (Copy s0 (WithStore Background 0) [''a'', ''a''])) = None"
proof -
  have h: "cache (WithStore Background 0) = Some 0 \<and> 0 < nxt s0" by (simp add: s0_def)
  have d1: "distinct (filter (\<lambda>k. maps s0 0 k \<noteq> None) [''a'', ''b''])" by (simp add: s0_def)
  have d2: "\<not> distinct (filter (\<lambda>k. maps s0 0 k \<noteq> None) [''a'', ''a''])" by (simp add: s0_def)
  have n: "nxt s0 = 1" by (simp add: s0_def)
  show ?thesis
    using Copy_spec [of Background s0 "[''a'']"]
          Copy_spec [of "WithStore Background 0" s0 "[''a'', ''b'']"]
          Copy_spec [of "WithStore Background 0" s0 "[''a'', ''a'']"] h d1 d2 n
    by auto
qed

text \<open>
  Claim C9 as stated fails where a key of the source is listed twice: the second
  \<open>Set\<close> is rejected, and \<open>Copy\<close> returns the nil context and the error instead of a
  context that holds the key.
\<close>

theorem Copy_duplicate_key_counterexample:
  "cache (WithStore Background 0) = Some 0
   \<and> maps s0 0 ''a'' = Some (IString ''1'')
   \<and> snd (Copy s0 (WithStore Background 0) [''a'', ''a'']) = (None, Some (DuplicateKey ''a''))"
  by (simp add: Copy_def New_def Set_def s0_def)

section \<open>Properties of apcu\<close>

text \<open>\<open>load\<close> changes no entry but the one it is called for.\<close>

lemma load_frame: "k' \<noteq> k \<Longrightarrow> fst (load E now C k out) k' = C k'"
  by (cases "source (the (C k))")
     (auto simp: load_def split: option.splits out_arg.splits sum.splits)

text \<open>An entry whose source is nil is left as it is and reported as a miss.\<close>

lemma load_dead:
  "C k = Some item \<Longrightarrow> source item = INil \<Longrightarrow> load E now C k out = (C, False, None, None)"
  by (simp add: load_def)

text \<open>An expired entry is overwritten by an item without source and with the same expiry.\<close>

lemma load_expired:
  "C k = Some item \<Longrightarrow> expireAt item \<noteq> 0 \<Longrightarrow> expireAt item < now \<Longrightarrow>
   load E now C k out = (C(k \<mapsto> \<lparr>source = INil, expireAt = expireAt item\<rparr>), False, None, None)"
  by (cases item) (auto simp: load_def fun_eq_iff)

lemma Load_dead:
  assumes "getKey E c key = (k, None)" and "entries_of st k = Some item" and "source item = INil"
  shows "snd (Load E now c key out st) = (False, None, None)
         \<and> entries_of (fst (Load E now c key out st)) = entries_of st"
  using assms by (simp add: Load_def load_dead)

lemma Load_seq_dead:
  assumes "getKey E c key = (k, None)"
  shows "entries_of st k = Some item \<Longrightarrow> source item = INil \<Longrightarrow>
     snd (Load_seq E c key calls st) = replicate (length calls) (False, None, None)
     \<and> entries_of (fst (Load_seq E c key calls st)) k = Some item"
proof (induction calls arbitrary: st)
  case Nil
  then show ?case by simp
next
  case (Cons a calls)
  obtain now out where a: "a = (now, out)" by (cases a)
  obtain st' r where l: "Load E now c key out st = (st', r)" by (cases "Load E now c key out st")
  from Load_dead [OF assms Cons.prems, of now out] l
  have r: "r = (False, None, None)" and e: "entries_of st' = entries_of st" by simp_all
  have "entries_of st' k = Some item" using e Cons.prems by simp
  from Cons.IH [OF this Cons.prems(2)] show ?case
    using a l r by (auto split: prod.splits)
qed

text \<open>\<open>Store\<close> and \<open>Load\<close> work on the entry under the key that \<open>getKey\<close> returns.\<close>

lemma Store_at:
  assumes "getKey E c key = (k, None)"
  shows "Store E now c key val opts st
           = (st\<lparr>entries_of := (entries_of st)(k \<mapsto> \<lparr>source = val, expireAt = store_expire now opts\<rparr>)\<rparr>, None)"
  using assms by (simp add: Store_def Let_def)

lemma Load_at:
  assumes "getKey E c key = (k, None)"
  shows "snd (Load E now c key out st) = snd (load E now (entries_of st) k out)
         \<and> entries_of (fst (Load E now c key out st)) = fst (load E now (entries_of st) k out)"
  using assms by (simp add: Load_def split: prod.splits)

text \<open>What \<open>load\<close> returns depends on the entries only through the entry of its key.\<close>

lemma load_cong:
  "C k = C' k \<Longrightarrow> snd (load E now C k out) = snd (load E now C' k out)"
  apply (cases "C' k")
   apply (simp add: load_def)
  subgoal for item
    apply (cases "source item")
       apply (auto simp: load_def split: out_arg.splits sum.splits)
    done
  done

text \<open>
  As the test of the package observes through \<open>Range\<close>: in replay mode the value
  stored under a key is found under the session id followed by the key.
\<close>

lemma Range_after_Store:
  assumes "replay_mode E" and "get_session_id E c = (sid, None)"
  shows "Range (fst (Store E now c key val opts st)) (sid @ key) = Some val"
  using assms by (simp add: Range_def Store_def getKey_def)

text \<open>
  The run of the test of the package: in replay mode nothing is found under \<open>a\<close>
  at first; after the \<open>Store\<close> the value is loaded, and \<open>Range\<close> shows it under the
  session id followed by \<open>a\<close>.
\<close>

lemma TestReplay_run:
  "snd (Load E0 0 ctx_test ''a'' (OutPtr tData) st0) = (False, None, None)
   \<and> snd (Store E0 0 ctx_test ''a'' data_test [] st0) = None
   \<and> snd (Load E0 0 ctx_test ''a'' (OutPtr tData) (fst (Store E0 0 ctx_test ''a'' data_test [] st0)))
       = (True, None, Some ''success'')
   \<and> Range (fst (Store E0 0 ctx_test ''a'' data_test [] st0)) ''39fc5c13443f47da9ff320cc4b02c789a''
       = Some data_test"
  by (simp add: E0_def ctx_test_def data_test_def tData_def st0_def Load_def load_def Store_def
        store_expire_def getKey_def Range_def decode_object_def)

subsection \<open>The session id prefixes the key in replay mode\<close>

text \<open>
  Claim C4, as amended. In replay mode with the session id \<open>sid\<close> bound in the
  context, \<open>Store\<close> writes the entry named \<open>sid @ key\<close> and \<open>Load\<close> returns what
  \<open>load\<close> returns for that entry and changes the entries as \<open>load\<close> does; outside
  replay mode both work on the entry named \<open>key\<close>. In replay mode, a \<open>Store\<close> under
  one session id does not change what a \<open>Load\<close> under another session id returns,
  unless the session id followed by the key is the same text for both calls; it is
  never the same text when different session ids are used with the same key, or when
  they have the same length.
\<close>

theorem apcu_session_prefix:
  "(replay_mode E \<and> get_session_id E c = (sid, None) \<longrightarrow>
      Store E now c key val opts st
        = (st\<lparr>entries_of := (entries_of st)(sid @ key \<mapsto> \<lparr>source = val, expireAt = store_expire now opts\<rparr>)\<rparr>,
           None)
      \<and> snd (Load E now c key out st) = snd (load E now (entries_of st) (sid @ key) out)
      \<and> entries_of (fst (Load E now c key out st)) = fst (load E now (entries_of st) (sid @ key) out))
   \<and> (\<not> replay_mode E \<longrightarrow>
      Store E now c key val opts st
        = (st\<lparr>entries_of := (entries_of st)(key \<mapsto> \<lparr>source = val, expireAt = store_expire now opts\<rparr>)\<rparr>,
           None)
      \<and> snd (Load E now c key out st) = snd (load E now (entries_of st) key out)
      \<and> entries_of (fst (Load E now c key out st)) = fst (load E now (entries_of st) key out))
   \<and> (replay_mode E \<and> get_session_id E c = (sid, None) \<and> get_session_id E c' = (sid', None)
        \<and> sid @ key \<noteq> sid' @ key' \<longrightarrow>
      snd (Load E now' c' key' out (fst (Store E now c key val opts st)))
        = snd (Load E now' c' key' out st))
   \<and> (sid \<noteq> sid' \<and> (key' = key \<or> length sid' = length sid) \<longrightarrow> sid @ key \<noteq> sid' @ key')"
proof (intro conjI impI)
  assume a: "replay_mode E \<and> get_session_id E c = (sid, None)"
  then have k: "getKey E c key = (sid @ key, None)" by (simp add: getKey_def)
  show "Store E now c key val opts st
        = (st\<lparr>entries_of := (entries_of st)(sid @ key \<mapsto> \<lparr>source = val, expireAt = store_expire now opts\<rparr>)\<rparr>,
           None)"
    by (rule Store_at [OF k])
  show "snd (Load E now c key out st) = snd (load E now (entries_of st) (sid @ key) out)"
    using Load_at [OF k] by simp
  show "entries_of (fst (Load E now c key out st)) = fst (load E now (entries_of st) (sid @ key) out)"
    using Load_at [OF k] by simp
next
  assume a: "\<not> replay_mode E"
  then have k: "getKey E c key = (key, None)" by (simp add: getKey_def)
  show "Store E now c key val opts st
        = (st\<lparr>entries_of := (entries_of st)(key \<mapsto> \<lparr>source = val, expireAt = store_expire now opts\<rparr>)\<rparr>,
           None)"
    by (rule Store_at [OF k])
  show "snd (Load E now c key out st) = snd (load E now (entries_of st) key out)"
    using Load_at [OF k] by simp
  show "entries_of (fst (Load E now c key out st)) = fst (load E now (entries_of st) key out)"
    using Load_at [OF k] by simp
next
  assume a: "replay_mode E \<and> get_session_id E c = (sid, None) \<and> get_session_id E c' = (sid', None)
        \<and> sid @ key \<noteq> sid' @ key'"
  then have k: "getKey E c key = (sid @ key, None)" and k': "getKey E c' key' = (sid' @ key', None)"
    by (simp_all add: getKey_def)
  have ne: "sid' @ key' \<noteq> sid @ key" using a by auto
  have e: "entries_of (fst (Store E now c key val opts st)) (sid' @ key') = entries_of st (sid' @ key')"
    using ne Store_at [OF k] by simp
  show "snd (Load E now' c' key' out (fst (Store E now c key val opts st))) = snd (Load E now' c' key' out st)"
    using Load_at [OF k'] load_cong [of "entries_of (fst (Store E now c key val opts st))" "sid' @ key'" "entries_of st" E now' out] e by simp
next
  assume "sid \<noteq> sid' \<and> (key' = key \<or> length sid' = length sid)"
  then show "sid @ key \<noteq> sid' @ key'" by auto
qed

text \<open>
  The examples: a value stored under session \<open>a\<close> is loaded under session \<open>a\<close> and
  not under session \<open>b\<close> with the same key, nor under session \<open>s10\<close> with another key
  when it was stored under session \<open>s9\<close>; outside replay mode the entry has the name
  of the key.
\<close>

theorem apcu_session_prefix_witness:
  "replay_mode E0 \<and> get_session_id E0 ca = (''a'', None) \<and> get_session_id E0 cb = (''b'', None)
   \<and> ''a'' \<noteq> ''b''
   \<and> fst (Store E0 0 ca ''k'' (IString ''v'') [] st0)
       = st0\<lparr>entries_of := [''ak'' \<mapsto> \<lparr>source = IString ''v'', expireAt = 0\<rparr>]\<rparr>
   \<and> snd (Load E0 0 ca ''k'' (OutPtr TString) (fst (Store E0 0 ca ''k'' (IString ''v'') [] st0)))
       = (True, None, Some ''v'')
   \<and> snd (Load E0 0 cb ''k'' (OutPtr TString) (fst (Store E0 0 ca ''k'' (IString ''v'') [] st0)))
       = (False, None, None)
   \<and> get_session_id E0 cs9 = (''s9'', None) \<and> get_session_id E0 cs10 = (''s10'', None)
   \<and> ''s9'' @ ''x'' \<noteq> ''s10'' @ ''y''
   \<and> snd (Load E0 0 cs10 ''y'' (OutPtr TString) (fst (Store E0 0 cs9 ''x'' (IString ''v'') [] st0)))
       = (False, None, None)
   \<and> \<not> replay_mode (E0\<lparr>replay_mode := False\<rparr>)
   \<and> fst (Store (E0\<lparr>replay_mode := False\<rparr>) 0 ca ''k'' (IString ''v'') [] st0)
       = st0\<lparr>entries_of := [''k'' \<mapsto> \<lparr>source = IString ''v'', expireAt = 0\<rparr>]\<rparr>"
proof -
  let ?F = "E0\<lparr>replay_mode := False\<rparr>"
  let ?st = "fst (Store E0 0 ca ''k'' (IString ''v'') [] st0)"
  have r: "replay_mode E0 \<and> get_session_id E0 ca = (''a'', None) \<and> get_session_id E0 cb = (''b'', None)"
    by (simp add: E0_def ca_def cb_def)
  have r9: "get_session_id E0 cs9 = (''s9'', None) \<and> get_session_id E0 cs10 = (''s10'', None)"
    by (simp add: E0_def cs9_def cs10_def)
  have n9: "''s9'' @ ''x'' \<noteq> ''s10'' @ ''y''" by simp
  have f: "\<not> replay_mode ?F" by simp
  have s: "?st = st0\<lparr>entries_of := [''ak'' \<mapsto> \<lparr>source = IString ''v'', expireAt = 0\<rparr>]\<rparr>"
    by (simp add: Store_def store_expire_def getKey_def E0_def ca_def st0_def)
  have s': "fst (Store ?F 0 ca ''k'' (IString ''v'') [] st0)
       = st0\<lparr>entries_of := [''k'' \<mapsto> \<lparr>source = IString ''v'', expireAt = 0\<rparr>]\<rparr>"
    by (simp add: Store_def store_expire_def getKey_def E0_def ca_def st0_def)
  have l0: "snd (Load E0 0 cb ''k'' (OutPtr TString) st0) = (False, None, None)"
    by (simp add: Load_def getKey_def load_def E0_def cb_def st0_def)
  have l9: "snd (Load E0 0 cs10 ''y'' (OutPtr TString) st0) = (False, None, None)"
    by (simp add: Load_def getKey_def load_def E0_def cs10_def st0_def)
  have l1: "snd (load E0 0 (entries_of ?st) ''ak'' (OutPtr TString)) = (True, None, Some ''v'')"
    unfolding s by (simp add: load_def E0_def st0_def decode_object_def)
  have A: "snd (Load E0 0 ca ''k'' (OutPtr TString) ?st) = snd (load E0 0 (entries_of ?st) (''a'' @ ''k'') (OutPtr TString))"
    using apcu_session_prefix [where E=E0 and c=ca and sid="''a''" and key="''k''" and now=0
            and out="OutPtr TString" and st="?st"] r
    by blast
  have ne: "''a'' @ ''k'' \<noteq> ''b'' @ ''k''" by simp
  have B: "snd (Load E0 0 cb ''k'' (OutPtr TString) ?st) = snd (Load E0 0 cb ''k'' (OutPtr TString) st0)"
    using apcu_session_prefix [where E=E0 and c=ca and sid="''a''" and key="''k''" and now=0
            and val="IString ''v''" and opts="[]" and st=st0 and out="OutPtr TString"
            and c'=cb and sid'="''b''" and key'="''k''" and now'=0] r ne
    by blast
  have C: "snd (Load E0 0 cs10 ''y'' (OutPtr TString) (fst (Store E0 0 cs9 ''x'' (IString ''v'') [] st0)))
            = snd (Load E0 0 cs10 ''y'' (OutPtr TString) st0)"
    using apcu_session_prefix [where E=E0 and c=cs9 and sid="''s9''" and key="''x''" and now=0
            and val="IString ''v''" and opts="[]" and st=st0 and out="OutPtr TString"
            and c'=cs10 and sid'="''s10''" and key'="''y''" and now'=0] r r9 n9
    by blast
  show ?thesis using r r9 n9 f s s' l0 l9 l1 A B C by simp
qed

text \<open>
  Claim C4 as stated fails for session ids of which one is a prefix of the other: the
  key is the plain concatenation, so the value stored under session \<open>a\<close> with key \<open>bc\<close>
  is loaded under session \<open>ab\<close> with key \<open>c\<close>, where nothing was found before the
  \<open>Store\<close>.
\<close>

theorem apcu_session_prefix_counterexample:
  "replay_mode E0 \<and> get_session_id E0 ca = (''a'', None) \<and> get_session_id E0 cab = (''ab'', None)
   \<and> snd (Load E0 0 cab ''c'' (OutPtr TString) st0) = (False, None, None)
   \<and> snd (Load E0 0 cab ''c'' (OutPtr TString) (fst (Store E0 0 ca ''bc'' (IString ''v'') [] st0)))
       = (True, None, Some ''v'')"
  by (simp add: E0_def ca_def cab_def st0_def Load_def Store_def store_expire_def getKey_def load_def
        decode_object_def)

subsection \<open>Expired entries become tombstones\<close>

text \<open>
  Claim C5. When the key resolves to an entry whose expiry is not the zero time and
  lies before the clock reading, \<open>Load\<close> returns \<open>(false, nil)\<close> and writes nothing
  through \<open>out\<close>; afterwards the key is still present, bound to an item with nil source
  and the same expiry, and no other entry has changed; and every later run of \<open>Load\<close>
  calls on that key, whatever their clock readings and \<open>out\<close> arguments, returns
  \<open>(false, nil)\<close> each time and leaves that item in place.
\<close>

theorem Load_expired_tombstone:
  assumes "getKey E c key = (k, None)" and "entries_of st k = Some item"
    and "expireAt item \<noteq> 0" and "expireAt item < now"
  shows "snd (Load E now c key out st) = (False, None, None)
     \<and> entries_of (fst (Load E now c key out st)) k = Some \<lparr>source = INil, expireAt = expireAt item\<rparr>
     \<and> (\<forall>k'. k' \<noteq> k \<longrightarrow> entries_of (fst (Load E now c key out st)) k' = entries_of st k')
     \<and> (\<forall>calls. snd (Load_seq E c key calls (fst (Load E now c key out st)))
                  = replicate (length calls) (False, None, None)
              \<and> entries_of (fst (Load_seq E c key calls (fst (Load E now c key out st)))) k
                  = Some \<lparr>source = INil, expireAt = expireAt item\<rparr>)"
proof -
  let ?tomb = "\<lparr>source = INil, expireAt = expireAt item\<rparr>"
  let ?st = "fst (Load E now c key out st)"
  have l: "load E now (entries_of st) k out = ((entries_of st)(k \<mapsto> ?tomb), False, None, None)"
    using assms(2-4) by (rule load_expired)
  have 1: "snd (Load E now c key out st) = (False, None, None)"
    using assms(1) l by (simp add: Load_def)
  have 2: "entries_of ?st = (entries_of st)(k \<mapsto> ?tomb)"
    using assms(1) l by (simp add: Load_def)
  have 3: "entries_of ?st k = Some ?tomb" using 2 by simp
  have 4: "\<forall>k'. k' \<noteq> k \<longrightarrow> entries_of ?st k' = entries_of st k'" using 2 by simp
  have 5: "source ?tomb = INil" by simp
  show ?thesis using 1 3 4 Load_seq_dead [OF assms(1) 3 5] by blast
qed

theorem Load_expired_tombstone_witness:
  "getKey (E0\<lparr>replay_mode := False\<rparr>) Background ''a'' = (''a'', None)
   \<and> entries_of st1 ''a'' = Some \<lparr>source = IString ''{}'', expireAt = 5\<rparr>
   \<and> (5::int) \<noteq> 0 \<and> (5::int) < 9
   \<and> snd (Load (E0\<lparr>replay_mode := False\<rparr>) 9 Background ''a'' (OutPtr TString) st1) = (False, None, None)
   \<and> entries_of (fst (Load (E0\<lparr>replay_mode := False\<rparr>) 9 Background ''a'' (OutPtr TString) st1)) ''a''
        = Some \<lparr>source = INil, expireAt = 5\<rparr>
   \<and> snd (Load_seq (E0\<lparr>replay_mode := False\<rparr>) Background ''a'' [(3, OutPtr TString), (11, OutNil)]
           (fst (Load (E0\<lparr>replay_mode := False\<rparr>) 9 Background ''a'' (OutPtr TString) st1)))
        = [(False, None, None), (False, None, None)]"
proof -
  let ?E = "E0\<lparr>replay_mode := False\<rparr>"
  have k: "getKey ?E Background ''a'' = (''a'', None)" by (simp add: getKey_def E0_def)
  have e: "entries_of st1 ''a'' = Some \<lparr>source = IString ''{}'', expireAt = 5\<rparr>"
    by (simp add: st1_def)
  have x: "expireAt \<lparr>source = IString ''{}'', expireAt = 5\<rparr> \<noteq> 0" by simp
  have y: "expireAt \<lparr>source = IString ''{}'', expireAt = 5\<rparr> < 9" by simp
  have n: "replicate (length [(3::int, OutPtr TString), (11, OutNil)]) (False, None :: error option, None :: string option)
           = [(False, None, None), (False, None, None)]" by simp
  show ?thesis
    using Load_expired_tombstone [OF k e x y, of "OutPtr TString"] k e n
    by (simp del: Load_seq.simps)
qed

subsection \<open>Delete without a session id\<close>

text \<open>
  Claim C10. In replay mode, when \<open>GetSessionID\<close> returns an error for the context,
  \<open>Load\<close> and \<open>Store\<close> return that error and leave the state as it was, while
  \<open>Delete\<close> deletes the entry under the empty key and leaves every entry under another
  key as it was.
\<close>

theorem Delete_ignores_session_error:
  assumes "replay_mode E" and "get_session_id E c = (sid, Some err)"
  shows "Load E now c key out st = (st, False, Some err, None)
     \<and> Store E now c key val opts st = (st, Some err)
     \<and> Delete E c key st = st\<lparr>entries_of := (entries_of st)([] := None)\<rparr>
     \<and> entries_of (Delete E c key st) [] = None
     \<and> (\<forall>k. k \<noteq> [] \<longrightarrow> entries_of (Delete E c key st) k = entries_of st k)"
  using assms by (simp add: Load_def Store_def Delete_def getKey_def)

theorem Delete_ignores_session_error_witness:
  "replay_mode E0
   \<and> get_session_id E0 Background = ([], Some (SessionIDError ''session id not found''))
   \<and> Load E0 9 Background ''a'' (OutPtr TString) st1
        = (st1, False, Some (SessionIDError ''session id not found''), None)
   \<and> Store E0 9 Background ''a'' (IString ''y'') [] st1
        = (st1, Some (SessionIDError ''session id not found''))
   \<and> entries_of (Delete E0 Background ''a'' st1) [] = None
   \<and> entries_of st1 [] \<noteq> None
   \<and> entries_of (Delete E0 Background ''a'' st1) ''a'' = entries_of st1 ''a''
   \<and> entries_of st1 ''a'' \<noteq> None"
proof -
  have r: "replay_mode E0" by (simp add: E0_def)
  have g: "get_session_id E0 Background = ([], Some (SessionIDError ''session id not found''))"
    by (simp add: E0_def)
  have e: "entries_of st1 [] \<noteq> None \<and> entries_of st1 ''a'' \<noteq> None" by (simp add: st1_def)
  show ?thesis
    using Delete_ignores_session_error [OF r g, of 9 "''a''" "OutPtr TString" st1 "IString ''y''" "[]"] r g e
    by simp
qed

subsection \<open>Loading a stored string after it was decoded once\<close>

text \<open>
  Claim C6. The claim has a stored string load into every type it decodes into as
  JSON, and into a string; so do the comments of \<open>Load\<close> and \<open>Store\<close>. The code does
  so only until the first \<open>Load\<close> that decodes the string: with the string \<open>{}\<close>
  stored under \<open>k\<close>, a \<open>Load\<close> into a string, into a \<open>tData\<close> and into a \<open>tUser\<close>
  each succeed on the state after the \<open>Store\<close>; the \<open>Load\<close> into a \<open>tData\<close> leaves
  the decoded \<open>reflect.Value\<close> in the entry in place of the string, and on the state
  after it the \<open>Load\<close> into a string and the \<open>Load\<close> into a \<open>tUser\<close> fail with the
  type-not-match error, while the \<open>Load\<close> into a \<open>tData\<close> succeeds.
\<close>

theorem Load_after_decode:
  "entries_of st_k ''k'' = Some \<lparr>source = IString ''{}'', expireAt = 0\<rparr>
   \<and> unmarshal E1 ''{}'' tData = Inr ''{}'' \<and> unmarshal E1 ''{}'' tUser = Inr ''{}''
   \<and> snd (Load E1 0 Background ''k'' (OutPtr TString) st_k) = (True, None, Some ''{}'')
   \<and> snd (Load E1 0 Background ''k'' (OutPtr tUser) st_k) = (True, None, Some ''{}'')
   \<and> snd (Load E1 0 Background ''k'' (OutPtr tData) st_k) = (True, None, Some ''{}'')
   \<and> entries_of st2 ''k'' = Some \<lparr>source = IReflect tData ''{}'', expireAt = 0\<rparr>
   \<and> snd (Load E1 0 Background ''k'' (OutPtr TString) st2) = (False, Some (TypeNotMatch TString), None)
   \<and> snd (Load E1 0 Background ''k'' (OutPtr tUser) st2) = (False, Some (TypeNotMatch tUser), None)
   \<and> snd (Load E1 0 Background ''k'' (OutPtr tData) st2) = (True, None, Some ''{}'')"
proof -
  have k: "entries_of st_k ''k'' = Some \<lparr>source = IString ''{}'', expireAt = 0\<rparr>"
    by (simp add: st_k_def E1_def st0_def Store_def store_expire_def getKey_def)
  have stk: "st_k = \<lparr>entries_of = [''k'' \<mapsto> \<lparr>source = IString ''{}'', expireAt = 0\<rparr>], recorded = []\<rparr>"
    by (simp add: st_k_def E1_def st0_def Store_def store_expire_def getKey_def)
  have st2: "st2 = \<lparr>entries_of = [''k'' \<mapsto> \<lparr>source = IReflect tData ''{}'', expireAt = 0\<rparr>], recorded = []\<rparr>"
    unfolding st2_def stk
    by (simp add: E1_def tData_def Load_def getKey_def load_def decode_object_def)
  have u: "unmarshal E1 ''{}'' tData = Inr ''{}'' \<and> unmarshal E1 ''{}'' tUser = Inr ''{}''"
    by (simp add: E1_def decode_object_def tData_def tUser_def)
  have a1: "snd (Load E1 0 Background ''k'' (OutPtr TString) st_k) = (True, None, Some ''{}'')"
    unfolding stk by (simp add: E1_def Load_def getKey_def load_def decode_object_def)
  have a2: "snd (Load E1 0 Background ''k'' (OutPtr tUser) st_k) = (True, None, Some ''{}'')"
    unfolding stk by (simp add: E1_def tUser_def Load_def getKey_def load_def decode_object_def)
  have a3: "snd (Load E1 0 Background ''k'' (OutPtr tData) st_k) = (True, None, Some ''{}'')"
    unfolding stk by (simp add: E1_def tData_def Load_def getKey_def load_def decode_object_def)
  have e2: "entries_of st2 ''k'' = Some \<lparr>source = IReflect tData ''{}'', expireAt = 0\<rparr>"
    unfolding st2 by simp
  have b1: "snd (Load E1 0 Background ''k'' (OutPtr TString) st2) = (False, Some (TypeNotMatch TString), None)"
    unfolding st2 by (simp add: E1_def tData_def Load_def getKey_def load_def)
  have b2: "snd (Load E1 0 Background ''k'' (OutPtr tUser) st2) = (False, Some (TypeNotMatch tUser), None)"
    unfolding st2 by (simp add: E1_def tData_def tUser_def Load_def getKey_def load_def)
  have b3: "snd (Load E1 0 Background ''k'' (OutPtr tData) st2) = (True, None, Some ''{}'')"
    unfolding st2 by (simp add: E1_def tData_def Load_def getKey_def load_def)
  show ?thesis using k u a1 a2 a3 e2 b1 b2 b3 by blast
qed

text \<open>
  A stored zero \<open>reflect.Value\<close> makes \<open>Load\<close> panic whatever the type \<open>out\<close> points
  to, where the entry is not expired.
\<close>

lemma Load_zero_Value_panics:
  "snd (Load E1 0 Background ''z'' (OutPtr t)
          (fst (Store E1 0 Background ''z'' IReflectZero [] st0)))
     = (False, Some (Panic ''reflect: call of reflect.Value.Type on zero Value''), None)"
  by (simp add: E1_def st0_def Load_def Store_def store_expire_def getKey_def load_def)

section \<open>Properties of the replayer\<close>

text \<open>\<open>earliest\<close> finds nothing only in the empty list, and what it finds is minimal.\<close>

lemma earliest_None: "earliest xs = None \<longleftrightarrow> xs = []"
  by (induction xs) (auto split: option.splits)

lemma earliest_Some:
  "earliest xs = Some x \<Longrightarrow> x \<in> set xs \<and> (\<forall>y \<in> set xs. timestamp (snd x) \<le> timestamp (snd y))"
proof (induction xs arbitrary: x)
  case Nil
  then show ?case by simp
next
  case (Cons z zs)
  show ?case
  proof (cases "earliest zs")
    case None
    then have "zs = []" by (simp add: earliest_None)
    with Cons.prems show ?thesis by simp
  next
    case (Some y)
    from Cons.IH [OF Some] have y: "y \<in> set zs" "\<forall>w \<in> set zs. timestamp (snd y) \<le> timestamp (snd w)"
      by simp_all
    show ?thesis
    proof (cases "timestamp (snd z) \<le> timestamp (snd y)")
      case True
      with Some Cons.prems have "x = z" by simp
      with True y show ?thesis by fastforce
    next
      case False
      with Some Cons.prems have "x = y" by simp
      with False y show ?thesis by fastforce
    qed
  qed
qed

lemma in_candidates:
  "(i, a) \<in> set (candidates p proto req flat st) \<longleftrightarrow>
     i < length (actions (recorded_session st)) \<and> i < length (consumed st)
     \<and> a = actions (recorded_session st) ! i \<and> \<not> consumed st ! i
     \<and> candidate p proto req flat a"
  by (auto simp: candidates_def in_set_enumerate_eq)

text \<open>
  The candidates for a request are the unconsumed positions of its bucket, and
  \<open>ReplayAction\<close> delivers one of least timestamp among them.
\<close>

lemma set_request_bucket:
  "request_bucket p proto req as = Some B \<Longrightarrow>
   \<exists>flat. live_fields p req = Inr flat
     \<and> set B = {i. i < length as \<and> candidate p proto req flat (as ! i)} \<and> distinct B"
  by (auto simp: request_bucket_def split: sum.splits)

lemma set_candidates_bucket:
  "set (candidates p proto req flat st)
     = (\<lambda>i. (i, actions (recorded_session st) ! i))
         ` (unconsumed st \<inter> {i. i < length (actions (recorded_session st))
                                 \<and> candidate p proto req flat (actions (recorded_session st) ! i)})"
  by (auto simp: in_candidates unconsumed_def)

lemma ReplayAction_bucket:
  assumes sid: "get_session_id E c = (sid, None)" and S: "S sid = Some st"
    and reg: "reg proto = Some p"
    and rb: "request_bucket p proto req (actions (recorded_session st)) = Some B"
  shows "(unconsumed st \<inter> set B = {} \<longrightarrow> ReplayAction E reg S c proto req = (S, Inl NotFound))
     \<and> (unconsumed st \<inter> set B \<noteq> {} \<longrightarrow>
         (\<exists>i \<in> unconsumed st \<inter> set B.
            (\<forall>j \<in> unconsumed st \<inter> set B. timestamp (actions (recorded_session st) ! i)
                                  \<le> timestamp (actions (recorded_session st) ! j))
            \<and> ReplayAction E reg S c proto req
                = (S(sid \<mapsto> st\<lparr>consumed := (consumed st)[i := True]\<rparr>),
                   Inr (i, actions (recorded_session st) ! i))))"
proof -
  let ?as = "actions (recorded_session st)"
  let ?U = "unconsumed st \<inter> set B"
  from set_request_bucket [OF rb] obtain flat where lf: "live_fields p req = Inr flat"
    and B: "set B = {i. i < length ?as \<and> candidate p proto req flat (?as ! i)}"
    by blast
  have cs: "set (candidates p proto req flat st) = (\<lambda>i. (i, ?as ! i)) ` ?U"
    unfolding B by (rule set_candidates_bucket)
  have R: "ReplayAction E reg S c proto req =
      (case earliest (candidates p proto req flat st) of
         None \<Rightarrow> (S, Inl NotFound)
       | Some (i, a) \<Rightarrow> (S(sid \<mapsto> st\<lparr>consumed := (consumed st)[i := True]\<rparr>), Inr (i, a)))"
    using sid S reg lf by (simp add: ReplayAction_def)
  show ?thesis
  proof (intro conjI impI)
    assume "?U = {}"
    then have "candidates p proto req flat st = []" using cs by simp
    then show "ReplayAction E reg S c proto req = (S, Inl NotFound)" using R by simp
  next
    assume ne: "?U \<noteq> {}"
    then have "candidates p proto req flat st \<noteq> []" using cs by auto
    then obtain x where e: "earliest (candidates p proto req flat st) = Some x"
      using earliest_None [of "candidates p proto req flat st"]
      by (cases "earliest (candidates p proto req flat st)") auto
    from earliest_Some [OF e] have xin: "x \<in> set (candidates p proto req flat st)"
      and xmin: "\<forall>y \<in> set (candidates p proto req flat st). timestamp (snd x) \<le> timestamp (snd y)"
      by simp_all
    from xin cs obtain i where i: "i \<in> ?U" "x = (i, ?as ! i)" by auto
    have "\<forall>j \<in> ?U. timestamp (?as ! i) \<le> timestamp (?as ! j)"
    proof
      fix j assume "j \<in> ?U"
      then have "(j, ?as ! j) \<in> set (candidates p proto req flat st)" using cs by auto
      with xmin i show "timestamp (?as ! i) \<le> timestamp (?as ! j)" by fastforce
    qed
    moreover have "ReplayAction E reg S c proto req
        = (S(sid \<mapsto> st\<lparr>consumed := (consumed st)[i := True]\<rparr>), Inr (i, ?as ! i))"
      using R e i by simp
    ultimately show "\<exists>i \<in> ?U.
            (\<forall>j \<in> ?U. timestamp (?as ! i) \<le> timestamp (?as ! j))
            \<and> ReplayAction E reg S c proto req
                = (S(sid \<mapsto> st\<lparr>consumed := (consumed st)[i := True]\<rparr>), Inr (i, ?as ! i))"
      using i by blast
  qed
qed

lemma unconsumed_mark:
  "unconsumed (st\<lparr>consumed := (consumed st)[i := True]\<rparr>) = unconsumed st - {i}"
proof -
  have "\<And>x. x < length (consumed st) \<Longrightarrow> (consumed st)[i := True] ! x = (x = i \<or> consumed st ! x)"
    by (case_tac "x = i") simp_all
  then show ?thesis by (auto simp: unconsumed_def)
qed

lemma finite_unconsumed: "finite (unconsumed st)"
  by (simp add: unconsumed_def)

text \<open>
  As many calls with requests of one bucket as the bucket has unconsumed positions
  deliver exactly these positions, in ascending order of timestamp, and consume no
  other position.
\<close>

lemma replay_run:
  assumes sid: "get_session_id E c = (sid, None)" and reg: "reg proto = Some p"
  shows "S sid = Some st \<Longrightarrow> recorded_session st = sess \<Longrightarrow>
     \<forall>r \<in> set reqs. request_bucket p proto r (actions sess) = Some B \<Longrightarrow>
     card (unconsumed st \<inter> set B) = length reqs \<Longrightarrow>
     \<exists>is S' st'. replay_seq E reg (map (\<lambda>r. (c, proto, r)) reqs) S
                   = (S', map (\<lambda>i. Inr (i, actions sess ! i)) is)
       \<and> distinct is \<and> set is = unconsumed st \<inter> set B
       \<and> sorted (map (\<lambda>i. timestamp (actions sess ! i)) is)
       \<and> S' sid = Some st' \<and> recorded_session st' = sess
       \<and> unconsumed st' = unconsumed st - set B"
proof (induction reqs arbitrary: S st)
  case Nil
  have "unconsumed st \<inter> set B = {}" using Nil.prems(4) finite_unconsumed [of st] by simp
  with Nil.prems show ?case by auto
next
  case (Cons r reqs)
  have m: "request_bucket p proto r (actions (recorded_session st)) = Some B"
    using Cons.prems by simp
  have ne: "unconsumed st \<inter> set B \<noteq> {}" using Cons.prems(4) by auto
  from ReplayAction_bucket [where E=E and c=c and sid=sid and reg=reg and proto=proto and p=p
      and S=S and st=st and req=r and B=B, OF sid Cons.prems(1) reg m] ne obtain i where
    i: "i \<in> unconsumed st \<inter> set B"
    and imin: "\<forall>j \<in> unconsumed st \<inter> set B.
                 timestamp (actions sess ! i) \<le> timestamp (actions sess ! j)"
    and R: "ReplayAction E reg S c proto r
              = (S(sid \<mapsto> st\<lparr>consumed := (consumed st)[i := True]\<rparr>), Inr (i, actions sess ! i))"
    using Cons.prems(2) by auto
  let ?st1 = "st\<lparr>consumed := (consumed st)[i := True]\<rparr>"
  let ?S1 = "S(sid \<mapsto> ?st1)"
  have u1: "unconsumed ?st1 = unconsumed st - {i}" by (rule unconsumed_mark)
  have a: "?S1 sid = Some ?st1" by simp
  have b: "recorded_session ?st1 = sess" using Cons.prems(2) by simp
  have c': "\<forall>r \<in> set reqs. request_bucket p proto r (actions sess) = Some B"
    using Cons.prems(3) by simp
  have "unconsumed ?st1 \<inter> set B = (unconsumed st \<inter> set B) - {i}" using u1 by auto
  then have d: "card (unconsumed ?st1 \<inter> set B) = length reqs"
    using i Cons.prems(4) finite_unconsumed [of st] by simp
  from Cons.IH [of ?S1 ?st1, OF a b c' d] obtain js S' st' where
    run: "replay_seq E reg (map (\<lambda>r. (c, proto, r)) reqs) ?S1
            = (S', map (\<lambda>i. Inr (i, actions sess ! i)) js)"
    and dj: "distinct js" and sj: "set js = unconsumed ?st1 \<inter> set B"
    and so: "sorted (map (\<lambda>i. timestamp (actions sess ! i)) js)"
    and fin: "S' sid = Some st'" "recorded_session st' = sess"
      "unconsumed st' = unconsumed ?st1 - set B"
    by blast
  have 1: "replay_seq E reg (map (\<lambda>r. (c, proto, r)) (r # reqs)) S
            = (S', map (\<lambda>i. Inr (i, actions sess ! i)) (i # js))"
    using R run by simp
  have 2: "distinct (i # js)" using dj sj u1 by simp
  have 3: "set (i # js) = unconsumed st \<inter> set B" using sj u1 i by auto
  have 4: "sorted (map (\<lambda>i. timestamp (actions sess ! i)) (i # js))"
    using so imin sj u1 by auto
  have 5: "unconsumed st' = unconsumed st - set B" using fin(3) u1 i by auto
  show ?case using 1 2 3 4 5 fin(1,2) by blast
qed

text \<open>
  \<open>ReplayAction\<close> either fails and leaves the store as it was, or delivers a position
  that was not consumed and marks it.
\<close>

lemma ReplayAction_cases:
  "(\<exists>e. ReplayAction E reg S c proto req = (S, Inl e))
   \<or> (\<exists>sid st i a. get_session_id E c = (sid, None) \<and> S sid = Some st
         \<and> i < length (consumed st) \<and> \<not> consumed st ! i
         \<and> ReplayAction E reg S c proto req
              = (S(sid \<mapsto> st\<lparr>consumed := (consumed st)[i := True]\<rparr>), Inr (i, a)))"
proof -
  obtain sid e where g: "get_session_id E c = (sid, e)" by (cases "get_session_id E c")
  show ?thesis
  proof (cases "e = None \<and> S sid \<noteq> None \<and> reg proto \<noteq> None \<and> (\<exists>flat. live_fields (the (reg proto)) req = Inr flat)")
    case False
    then show ?thesis using g
      by (auto simp: ReplayAction_def split: option.splits sum.splits)
  next
    case True
    then obtain st p flat where h: "e = None" "S sid = Some st" "reg proto = Some p" "live_fields p req = Inr flat"
      by auto
    show ?thesis
    proof (cases "earliest (candidates p proto req flat st)")
      case None
      then show ?thesis using g h by (simp add: ReplayAction_def)
    next
      case (Some x)
      obtain i a where x: "x = (i, a)" by (cases x)
      from earliest_Some [OF Some] x have "(i, a) \<in> set (candidates p proto req flat st)" by simp
      then have "i < length (consumed st) \<and> \<not> consumed st ! i" by (simp add: in_candidates)
      moreover have "ReplayAction E reg S c proto req
              = (S(sid \<mapsto> st\<lparr>consumed := (consumed st)[i := True]\<rparr>), Inr (i, a))"
        using g h Some x by (simp add: ReplayAction_def)
      ultimately show ?thesis using g h by blast
    qed
  qed
qed

lemma ReplayAction_keeps_delivered:
  "delivered S sid' j \<Longrightarrow> delivered (fst (ReplayAction E reg S c proto req)) sid' j"
  using ReplayAction_cases [of E reg S c proto req]
  by (auto simp: delivered_def nth_list_update split: option.splits if_splits)

lemma ReplayAction_delivers:
  assumes "snd (ReplayAction E reg S c proto req) = Inr (i, a)"
  shows "\<not> delivered S (fst (get_session_id E c)) i
         \<and> delivered (fst (ReplayAction E reg S c proto req)) (fst (get_session_id E c)) i"
  using ReplayAction_cases [of E reg S c proto req] assms
  by (auto simp: delivered_def)

lemma replay_seq_Cons:
  "replay_seq E reg ((c, proto, req) # calls) S =
     (fst (replay_seq E reg calls (fst (ReplayAction E reg S c proto req))),
      snd (ReplayAction E reg S c proto req)
        # snd (replay_seq E reg calls (fst (ReplayAction E reg S c proto req))))"
  by (simp split: prod.splits)

lemma later_not_delivered:
  "k < length calls \<Longrightarrow> snd (replay_seq E reg calls S) ! k = Inr (i, a) \<Longrightarrow>
   \<not> delivered S (fst (get_session_id E (fst (calls ! k)))) i"
proof (induction calls arbitrary: S k)
  case Nil
  then show ?case by simp
next
  case (Cons x calls)
  obtain c proto req where x: "x = (c, proto, req)" by (cases x)
  obtain S1 r where R: "ReplayAction E reg S c proto req = (S1, r)" by (cases "ReplayAction E reg S c proto req")
  have rs: "snd (replay_seq E reg (x # calls) S) = r # snd (replay_seq E reg calls S1)"
    using x R by (simp split: prod.splits)
  show ?case
  proof (cases k)
    case 0
    then have "r = Inr (i, a)" using Cons.prems(2) rs by simp
    then show ?thesis using ReplayAction_delivers [of E reg S c proto req i a] R x 0 by simp
  next
    case (Suc k')
    then have "k' < length calls" "snd (replay_seq E reg calls S1) ! k' = Inr (i, a)"
      using Cons.prems rs by simp_all
    from Cons.IH [OF this] have "\<not> delivered S1 (fst (get_session_id E (fst (calls ! k')))) i" .
    then have "\<not> delivered S (fst (get_session_id E (fst (calls ! k')))) i"
      using ReplayAction_keeps_delivered [of S _ i E reg c proto req] R by auto
    then show ?thesis using Suc by simp
  qed
qed

lemma at_most_once:
  "j < k \<Longrightarrow> k < length calls \<Longrightarrow>
   snd (replay_seq E reg calls S) ! j = Inr (i, a) \<Longrightarrow>
   snd (replay_seq E reg calls S) ! k = Inr (i', a') \<Longrightarrow>
   fst (get_session_id E (fst (calls ! j))) = fst (get_session_id E (fst (calls ! k))) \<Longrightarrow>
   i \<noteq> i'"
proof (induction calls arbitrary: S j k)
  case Nil
  then show ?case by simp
next
  case (Cons x calls)
  obtain c proto req where x: "x = (c, proto, req)" by (cases x)
  obtain S1 r where R: "ReplayAction E reg S c proto req = (S1, r)" by (cases "ReplayAction E reg S c proto req")
  have rs: "snd (replay_seq E reg (x # calls) S) = r # snd (replay_seq E reg calls S1)"
    using x R by (simp split: prod.splits)
  obtain k' where k: "k = Suc k'" using Cons.prems(1) by (cases k) auto
  have k'l: "k' < length calls" using Cons.prems(2) k by simp
  have rk: "snd (replay_seq E reg calls S1) ! k' = Inr (i', a')" using Cons.prems(4) rs k by simp
  show ?case
  proof (cases j)
    case 0
    then have "r = Inr (i, a)" using Cons.prems(3) rs by simp
    then have "delivered S1 (fst (get_session_id E c)) i"
      using ReplayAction_delivers [of E reg S c proto req i a] R by simp
    moreover have "\<not> delivered S1 (fst (get_session_id E (fst (calls ! k')))) i'"
      by (rule later_not_delivered [OF k'l rk])
    moreover have "fst (get_session_id E c) = fst (get_session_id E (fst (calls ! k')))"
      using Cons.prems(5) 0 k x by simp
    ultimately show ?thesis by auto
  next
    case (Suc j')
    have "j' < k'" using Cons.prems(1) Suc k by simp
    moreover have "snd (replay_seq E reg calls S1) ! j' = Inr (i, a)" using Cons.prems(3) rs Suc by simp
    moreover have "fst (get_session_id E (fst (calls ! j'))) = fst (get_session_id E (fst (calls ! k')))"
      using Cons.prems(5) Suc k by simp
    ultimately show ?thesis using Cons.IH [of j' k' S1] k'l rk by blast
  qed
qed

lemma unconsumed_fresh:
  "unconsumed \<lparr>recorded_session = sess, consumed = replicate (length (actions sess)) False,
                inbound_consumed = False\<rparr> = {0..<length (actions sess)}"
  by (auto simp: unconsumed_def)

subsection \<open>Replay in order, each Action once\<close>

text \<open>
  Claim C1, for sequential calls. Let a session with a non-empty id be stored, let
  the context be bound to that id and the protocol be registered. Let the requests
  all have the same bucket in the session: the N positions of the Actions that have
  the protocol asked for and the label of the request (and, where the plugin compares
  structure, its fields); the session may hold any other Actions besides. Then N
  calls of \<open>ReplayAction\<close>, one per request, return the Actions at exactly these N
  positions, each position once, in ascending order of timestamp; every Action
  returned has the protocol asked for and the label of the request; no other Action
  of the session is consumed; and one more call with such a request fails NotFound.
  Moreover, in every run of \<open>ReplayAction\<close> calls from every store, two calls that
  resolve to the same session id never return the same position.
\<close>

theorem replay_in_order:
  "(get_session_id E c = (session_id sess, None) \<and> session_id sess \<noteq> [] \<and> reg proto = Some p
      \<and> length reqs = length B
      \<and> (\<forall>r \<in> set (r' # reqs). request_bucket p proto r (actions sess) = Some B) \<longrightarrow>
      (\<exists>is S' st'. replay_seq E reg (map (\<lambda>r. (c, proto, r)) reqs) (fst (replayer_Store S sess))
                  = (S', map (\<lambda>i. Inr (i, actions sess ! i)) is)
          \<and> distinct is \<and> set is = set B
          \<and> sorted (map (\<lambda>i. timestamp (actions sess ! i)) is)
          \<and> (\<forall>i \<in> set is. i < length (actions sess)
                \<and> protocol (actions sess ! i) = proto
                \<and> get_label p (request (actions sess ! i)) = get_label p r')
          \<and> S' (session_id sess) = Some st'
          \<and> unconsumed st' = {0..<length (actions sess)} - set B
          \<and> snd (ReplayAction E reg S' c proto r') = Inl NotFound))
   \<and> (j < k \<and> k < length calls
        \<and> snd (replay_seq E reg calls S0) ! j = Inr (i, a)
        \<and> snd (replay_seq E reg calls S0) ! k = Inr (i', a')
        \<and> fst (get_session_id E (fst (calls ! j))) = fst (get_session_id E (fst (calls ! k))) \<longrightarrow>
      i \<noteq> i')"
proof (intro conjI impI)
  assume h: "get_session_id E c = (session_id sess, None) \<and> session_id sess \<noteq> [] \<and> reg proto = Some p
      \<and> length reqs = length B
      \<and> (\<forall>r \<in> set (r' # reqs). request_bucket p proto r (actions sess) = Some B)"
  let ?st = "\<lparr>recorded_session = sess, consumed = replicate (length (actions sess)) False,
              inbound_consumed = False\<rparr>"
  let ?S0 = "fst (replayer_Store S sess)"
  have rb': "request_bucket p proto r' (actions sess) = Some B" using h by simp
  from set_request_bucket [OF rb'] obtain flat where
    B: "set B = {i. i < length (actions sess) \<and> candidate p proto r' flat (actions sess ! i)}"
    and dB: "distinct B"
    by blast
  have iB: "\<And>i. i \<in> set B \<longleftrightarrow>
              i < length (actions sess) \<and> candidate p proto r' flat (actions sess ! i)"
    unfolding B by simp
  have s0: "?S0 (session_id sess) = Some ?st" using h by (simp add: replayer_Store_def)
  have rsn: "recorded_session ?st = sess" by simp
  have m: "\<forall>r \<in> set reqs. request_bucket p proto r (actions sess) = Some B" using h by simp
  have "set B \<subseteq> {0..<length (actions sess)}" by (auto simp: iB)
  then have sub: "unconsumed ?st \<inter> set B = set B" unfolding unconsumed_fresh by blast
  have cd: "card (unconsumed ?st \<inter> set B) = length reqs"
    using h sub dB by (simp add: distinct_card)
  have sid: "get_session_id E c = (session_id sess, None)" and reg: "reg proto = Some p"
    using h by simp_all
  from replay_run [where E=E and c=c and sid="session_id sess" and reg=reg and proto=proto and p=p
      and S="?S0" and st="?st" and sess=sess and reqs=reqs and B=B, OF sid reg s0 rsn m cd]
  obtain js S' st' where
    run: "replay_seq E reg (map (\<lambda>r. (c, proto, r)) reqs) ?S0
            = (S', map (\<lambda>i. Inr (i, actions sess ! i)) js)"
    and dj: "distinct js" and sj: "set js = unconsumed ?st \<inter> set B"
    and so: "sorted (map (\<lambda>i. timestamp (actions sess ! i)) js)"
    and fin: "S' (session_id sess) = Some st'" "recorded_session st' = sess"
      "unconsumed st' = unconsumed ?st - set B"
    by blast
  have sj': "set js = set B" using sj sub by simp
  have lab: "\<forall>i \<in> set js. i < length (actions sess) \<and> protocol (actions sess ! i) = proto
                \<and> get_label p (request (actions sess ! i)) = get_label p r'"
    unfolding sj' by (simp add: iB candidate_def)
  have un: "unconsumed st' = {0..<length (actions sess)} - set B"
    using fin(3) unfolding unconsumed_fresh .
  have m': "request_bucket p proto r' (actions (recorded_session st')) = Some B"
    using rb' fin by simp
  have "unconsumed st' \<inter> set B = {}" unfolding fin(3) by blast
  then have nf: "ReplayAction E reg S' c proto r' = (S', Inl NotFound)"
    using ReplayAction_bucket [where E=E and c=c and sid="session_id sess" and reg=reg
        and proto=proto and p=p and S=S' and st=st' and req=r' and B=B, OF sid fin(1) reg m']
    by simp
  show "\<exists>is S' st'. replay_seq E reg (map (\<lambda>r. (c, proto, r)) reqs) ?S0
                  = (S', map (\<lambda>i. Inr (i, actions sess ! i)) is)
          \<and> distinct is \<and> set is = set B
          \<and> sorted (map (\<lambda>i. timestamp (actions sess ! i)) is)
          \<and> (\<forall>i \<in> set is. i < length (actions sess)
                \<and> protocol (actions sess ! i) = proto
                \<and> get_label p (request (actions sess ! i)) = get_label p r')
          \<and> S' (session_id sess) = Some st'
          \<and> unconsumed st' = {0..<length (actions sess)} - set B
          \<and> snd (ReplayAction E reg S' c proto r') = Inl NotFound"
  proof (intro exI conjI)
    show "replay_seq E reg (map (\<lambda>r. (c, proto, r)) reqs) ?S0
            = (S', map (\<lambda>i. Inr (i, actions sess ! i)) js)" by (rule run)
    show "distinct js" by (rule dj)
    show "set js = set B" by (rule sj')
    show "sorted (map (\<lambda>i. timestamp (actions sess ! i)) js)" by (rule so)
    show "\<forall>i \<in> set js. i < length (actions sess) \<and> protocol (actions sess ! i) = proto
                \<and> get_label p (request (actions sess ! i)) = get_label p r'" by (rule lab)
    show "S' (session_id sess) = Some st'" by (rule fin(1))
    show "unconsumed st' = {0..<length (actions sess)} - set B" by (rule un)
    show "snd (ReplayAction E reg S' c proto r') = Inl NotFound" by (simp add: nf)
  qed
next
  assume "j < k \<and> k < length calls
        \<and> snd (replay_seq E reg calls S0) ! j = Inr (i, a)
        \<and> snd (replay_seq E reg calls S0) ! k = Inr (i', a')
        \<and> fst (get_session_id E (fst (calls ! j))) = fst (get_session_id E (fst (calls ! k)))"
  then show "i \<noteq> i'" using at_most_once [of j k calls E reg S0 i a i' a'] by blast
qed

text \<open>
  The example: of the four Actions of the session, the two of the request
  \<open>SET a 1\<close> are delivered, the one recorded at time 10 first; the third call finds
  nothing, and the Actions of the requests \<open>HGET a\<close> and \<open>SET a 2\<close> stay
  unconsumed.
\<close>

lemma run0:
  "snd (replay_seq E0 reg0 (calls0 @ [(cs1, ''REDIS'', ''SET a 1'')])
          (fst (replayer_Store Map.empty sess0)))
     = [Inr (2, act ''SET a 1'' 10), Inr (0, act ''SET a 1'' 30), Inl NotFound]"
  by (simp add: calls0_def replayer_Store_def sess0_def ReplayAction_def E0_def cs1_def reg0_def
        redis_def live_fields_def candidates_def candidate_def same_fields_def act_def enumerate_eq_zip
        upt_rec [of 0] upt_rec [of 1] upt_rec [of 2] upt_rec [of 3])

lemma bucket0: "request_bucket redis ''REDIS'' ''SET a 1'' (actions sess0) = Some [0, 2]"
  by (simp add: request_bucket_def live_fields_def candidate_def same_fields_def redis_def
        sess0_def act_def upt_rec [of 0] upt_rec [of 1] upt_rec [of 2] upt_rec [of 3])

theorem replay_in_order_witness:
  "get_session_id E0 cs1 = (session_id sess0, None) \<and> session_id sess0 \<noteq> []
   \<and> reg0 ''REDIS'' = Some redis
   \<and> length [''SET a 1'', ''SET a 1''] = length [0::nat, 2]
   \<and> request_bucket redis ''REDIS'' ''SET a 1'' (actions sess0) = Some [0, 2]
   \<and> length (actions sess0) = 4
   \<and> (\<exists>is S' st'. replay_seq E0 reg0 calls0 (fst (replayer_Store Map.empty sess0))
                  = (S', map (\<lambda>i. Inr (i, actions sess0 ! i)) is)
          \<and> distinct is \<and> set is = {0, 2}
          \<and> sorted (map (\<lambda>i. timestamp (actions sess0 ! i)) is)
          \<and> S' (session_id sess0) = Some st'
          \<and> unconsumed st' = {1, 3}
          \<and> snd (ReplayAction E0 reg0 S' cs1 ''REDIS'' ''SET a 1'') = Inl NotFound)
   \<and> snd (replay_seq E0 reg0 (calls0 @ [(cs1, ''REDIS'', ''SET a 1'')])
            (fst (replayer_Store Map.empty sess0)))
        = [Inr (2, act ''SET a 1'' 10), Inr (0, act ''SET a 1'' 30), Inl NotFound]
   \<and> (2::nat) \<noteq> 0"
proof -
  have g: "get_session_id E0 cs1 = (session_id sess0, None) \<and> session_id sess0 \<noteq> []"
    by (simp add: E0_def cs1_def sess0_def)
  have r: "reg0 ''REDIS'' = Some redis" by (simp add: reg0_def)
  have l: "length [''SET a 1'', ''SET a 1''] = length [0::nat, 2]" by simp
  have n: "length (actions sess0) = 4" by (simp add: sess0_def)
  have ms: "\<forall>r \<in> set (''SET a 1'' # [''SET a 1'', ''SET a 1'']).
              request_bucket redis ''REDIS'' r (actions sess0) = Some [0, 2]"
    using bucket0 by simp
  have c: "length (calls0 @ [(cs1, ''REDIS'', ''SET a 1'')]) = 3"
    "fst (get_session_id E0 (fst ((calls0 @ [(cs1, ''REDIS'', ''SET a 1'')]) ! 0)))
       = fst (get_session_id E0 (fst ((calls0 @ [(cs1, ''REDIS'', ''SET a 1'')]) ! 1)))"
    by (simp_all add: calls0_def)
  have d': "{0..<4} - set [0, 2] = {1, 3::nat}" by auto
  note T = replay_in_order [where E=E0 and c=cs1 and sess=sess0 and reg=reg0 and proto="''REDIS''"
      and p=redis and reqs="[''SET a 1'', ''SET a 1'']" and r'="''SET a 1''" and B="[0, 2]"
      and S=Map.empty and j=0 and k=1 and calls="calls0 @ [(cs1, ''REDIS'', ''SET a 1'')]"
      and S0="fst (replayer_Store Map.empty sess0)" and i=2 and a="act ''SET a 1'' 10" and i'=0
      and a'="act ''SET a 1'' 30"]
  have A: "\<exists>is S' st'. replay_seq E0 reg0 calls0 (fst (replayer_Store Map.empty sess0))
                  = (S', map (\<lambda>i. Inr (i, actions sess0 ! i)) is)
          \<and> distinct is \<and> set is = {0, 2}
          \<and> sorted (map (\<lambda>i. timestamp (actions sess0 ! i)) is)
          \<and> S' (session_id sess0) = Some st'
          \<and> unconsumed st' = {1, 3}
          \<and> snd (ReplayAction E0 reg0 S' cs1 ''REDIS'' ''SET a 1'') = Inl NotFound"
  proof -
    from T g r l ms obtain js S' st' where
      "replay_seq E0 reg0 (map (\<lambda>r. (cs1, ''REDIS'', r)) [''SET a 1'', ''SET a 1''])
           (fst (replayer_Store Map.empty sess0))
         = (S', map (\<lambda>i. Inr (i, actions sess0 ! i)) js)"
      "distinct js" "set js = set [0, 2]"
      "sorted (map (\<lambda>i. timestamp (actions sess0 ! i)) js)"
      "S' (session_id sess0) = Some st'"
      "unconsumed st' = {0..<length (actions sess0)} - set [0, 2]"
      "snd (ReplayAction E0 reg0 S' cs1 ''REDIS'' ''SET a 1'') = Inl NotFound"
      by blast
    then show ?thesis unfolding calls0_def n d' by (intro exI conjI) simp_all
  qed
  have B: "(2::nat) \<noteq> 0" using T c run0 by simp
  show ?thesis using g r l n bucket0 A B run0 by blast
qed

section \<open>Properties of the command-line codec\<close>

text \<open>Two hexadecimal digits give back the byte they were made from.\<close>

lemma hex_val_digit: "n < 16 \<Longrightarrow> hex_val (hex_digit n) = Some n"
  by (auto simp: hex_val_def hex_digit_def Let_def)

lemma byte_of_nibbles:
  "char_of (16 * ((of_char c :: nat) div 16) + (of_char c :: nat) mod 16) = c"
  by simp

lemma nibble_bounds: "(of_char c :: nat) div 16 < 16" "(of_char c :: nat) mod 16 < 16"
proof -
  have "(of_char c :: nat) < 256" by (rule nat_of_char_less_256)
  then show "(of_char c :: nat) div 16 < 16" by arith
  show "(of_char c :: nat) mod 16 < 16" by simp
qed

text \<open>The decoder reads back what the encoder wrote for one value.\<close>

lemma plain_not_special: "plain c \<Longrightarrow> c \<noteq> separator \<and> c \<noteq> quote_char \<and> c \<noteq> escape_char"
  by (auto simp: plain_def printable_def separator_def)

lemma in_bare_plain:
  "list_all plain v \<Longrightarrow> in_bare (v @ rest) cur vals = in_bare rest (rev v @ cur) vals"
  by (induction v arbitrary: cur) (auto simp: plain_not_special)

lemma in_quoted_escape_byte:
  "in_quoted (escape_byte c @ rest) cur vals = in_quoted rest (c # cur) vals"
proof (cases "c = quote_char \<or> c = escape_char")
  case True
  then show ?thesis
    by (auto simp: escape_byte_def quote_char_def escape_char_def)
next
  case False
  show ?thesis
  proof (cases "printable c \<or> c = separator")
    case True
    with False show ?thesis by (simp add: escape_byte_def)
  next
    case np: False
    have x: "CHR ''x'' \<noteq> quote_char" "CHR ''x'' \<noteq> escape_char" "escape_char \<noteq> quote_char"
      by (simp_all add: quote_char_def escape_char_def)
    show ?thesis
      using False np x
      by (simp add: escape_byte_def hex_val_digit nibble_bounds)
  qed
qed

lemma in_quoted_escaped:
  "in_quoted (concat (map escape_byte v) @ rest) cur vals = in_quoted rest (rev v @ cur) vals"
  by (induction v arbitrary: cur) (simp_all add: in_quoted_escape_byte)

lemma parse_token_value:
  "parse_token (encode_value v @ rest) vals =
     (if v \<noteq> [] \<and> list_all plain v then in_bare rest (rev v) vals
      else after_quote rest (v # vals))"
proof (cases "v \<noteq> [] \<and> list_all plain v")
  case True
  then obtain c cs where v: "v = c # cs" by (cases v) auto
  with True have "plain c" "list_all plain cs" by simp_all
  then show ?thesis
    using True v in_bare_plain [of cs rest "[c]" vals]
    by (simp add: encode_value_def plain_not_special)
next
  case False
  have "in_quoted (concat (map escape_byte v) @ quote_char # rest) [] vals
          = in_quoted (quote_char # rest) (rev v) vals"
    using in_quoted_escaped [of v "quote_char # rest" "[]" vals] by simp
  moreover have "encode_value v = quote_char # concat (map escape_byte v) @ [quote_char]"
    using False by (auto simp: encode_value_def)
  ultimately show ?thesis using False by auto
qed

lemma parse_token_last: "parse_token (encode_value v) vals = Inr (rev (v # vals))"
  using parse_token_value [of v "[]" vals] by simp

lemma parse_token_more:
  "parse_token (encode_value v @ separator # rest) vals = parse_token rest (v # vals)"
  using parse_token_value [of v "separator # rest" vals] by simp

text \<open>The decoder reads back a joined list of at least one value.\<close>

lemma parse_token_join:
  "parse_token (join_values (v # vs)) vals = Inr (rev vals @ v # vs)"
proof (induction vs arbitrary: v vals)
  case Nil
  show ?case by (simp add: parse_token_last)
next
  case (Cons w ws)
  show ?case using Cons [of w "v # vals"] by (simp add: parse_token_more)
qed

lemma encode_value_nonempty: "encode_value v \<noteq> []"
  by (simp add: encode_value_def)

lemma join_values_nonempty: "join_values (v # vs) \<noteq> []"
  by (cases vs) (simp_all add: encode_value_nonempty)

text \<open>Examples: a command of plain values, and texts the decoder rejects.\<close>

lemma ToCommandLine_SET: "ToCommandLine [''SET'', ''a'', ''1''] = ''SET a 1''"
  by (simp add: ToCommandLine_def encode_value_def plain_def printable_def quote_char_def
        escape_char_def separator_def)

lemma ParseCommandLine_rejects:
  "ParseCommandLine [quote_char, CHR ''a''] = Inl Malformed
   \<and> ParseCommandLine [quote_char, escape_char, CHR ''z'', quote_char] = Inl Malformed
   \<and> ParseCommandLine [CHR ''a'', separator] = Inl Malformed"
  by (simp add: ParseCommandLine_def plain_def printable_def quote_char_def escape_char_def
        separator_def)

subsection \<open>Round trip\<close>

text \<open>
  Claim C2. For every list of byte strings, \<open>ParseCommandLine\<close> of the text that
  \<open>ToCommandLine\<close> makes of it succeeds and returns the list itself: the same values
  in the same order, whatever bytes they hold, for the empty list and for a list of
  one value as well.
\<close>

theorem command_line_round_trip: "ParseCommandLine (ToCommandLine v) = Inr v"
proof (cases v)
  case Nil
  then show ?thesis by (simp add: ParseCommandLine_def ToCommandLine_def)
next
  case (Cons x xs)
  then show ?thesis
    using parse_token_join [of x xs "[]"] join_values_nonempty [of x xs]
    by (simp add: ParseCommandLine_def ToCommandLine_def)
qed

text \<open>The lists of the test, the empty list and the list of one empty value.\<close>

theorem command_line_round_trip_witness:
  "ParseCommandLine (ToCommandLine [''SET'', ''a'', test_bytes]) = Inr [''SET'', ''a'', test_bytes]
   \<and> ParseCommandLine (ToCommandLine []) = Inr []
   \<and> ParseCommandLine (ToCommandLine [[]]) = Inr [[]]
   \<and> ToCommandLine [] \<noteq> ToCommandLine [[]]"
proof -
  have "ToCommandLine [] \<noteq> ToCommandLine [[]]"
    by (simp add: ToCommandLine_def encode_value_def)
  then show ?thesis
    using command_line_round_trip [of "[''SET'', ''a'', test_bytes]"]
          command_line_round_trip [of "[]"] command_line_round_trip [of "[[]]"]
    by blast
qed

end
